theory Spec2Isabelle
  imports Complex_Main "HOL-Library.Word" "HOL-Library.Signed_Division" "HOL-Library.AList"
    "HOL-Library.Log_Nat"
begin

unbundle bit_operations_syntax

section \<open>Values shared by the reducers\<close>

text \<open>
  A Go run-time panic is a value of the model.  The code of \<^verbatim>\<open>internal/dna/colors.go\<close>
  can panic in five ways: an index out of range, a slice expression out of range, an
  integer division by zero, \<^verbatim>\<open>make\<close> with a length that is negative or beyond the
  allocation limit, and \<^verbatim>\<open>image.NewRGBA\<close> on a rectangle with huge or negative dimensions.
\<close>

datatype panic =
  IndexOutOfRange | SliceBoundsOutOfRange | DivideByZero | MakeSliceLenOutOfRange
  | ImageHugeOrNegative

text \<open>
  Go's \<^verbatim>\<open>int\<close> has 64 bits on a 64-bit platform (the scripts of the repository run
  \<^verbatim>\<open>bin/videodna-arm64\<close>).  A value of type \<^verbatim>\<open>int\<close> is an integer of the model, and the
  result of an arithmetic expression of the code is the exact result wrapped into the range
  from \<open>- 2 ^ 63\<close> to \<open>2 ^ 63 - 1\<close>.  Wrapping once at the end of an expression built from
  \<open>+\<close>, \<open>-\<close> and \<open>*\<close> gives what wrapping after every operation gives.
\<close>

definition int64 :: "int \<Rightarrow> int" where
  "int64 k = (k + 2 ^ 63) mod 2 ^ 64 - 2 ^ 63"

text \<open>
  \<^verbatim>\<open>maxAlloc\<close> of the Go run time on a 64-bit platform: \<^verbatim>\<open>make([]byte, n)\<close> panics when
  \<open>n\<close> is negative or larger.  Whether the operating system can back an allocation within
  this limit is not modelled.
\<close>

definition maxAlloc :: int where
  "maxAlloc = 2 ^ 48"

type_synonym byte = "8 word"

text \<open>The value \<^verbatim>\<open>color.RGBA{R, G, B, A}\<close>.\<close>

record rgba =
  R :: byte
  G :: byte
  B :: byte
  A :: byte

text \<open>
  \<^verbatim>\<open>buf[i]\<close> on a byte slice, with the bounds check of the Go run time.  The indices
  \<open>x * 3\<close> and \<open>(y * width + col) * 3\<close> of the reducers are computed without
  wrap-around: a reducer reads at increasing indices and panics at the first one beyond
  the slice, and a slice is shorter than \<open>2 ^ 63\<close> bytes, so that a row reducer never
  reaches an index that wraps; neither does a column reducer on a frame of \<^verbatim>\<open>Generate\<close>,
  where the width is at least 1 and, the canvas being allocated, at most \<open>2 ^ 46\<close>, and the
  frame has at most \<open>2 ^ 48\<close> bytes.
\<close>

definition byte_at :: "byte list \<Rightarrow> int \<Rightarrow> panic + byte" where
  "byte_at buf i = (if 0 \<le> i \<and> i < int (length buf) then Inr (buf ! nat i) else Inl IndexOutOfRange)"

text \<open>The three reads \<^verbatim>\<open>buf[i]\<close>, \<^verbatim>\<open>buf[i+1]\<close>, \<^verbatim>\<open>buf[i+2]\<close> of one loop iteration.\<close>

definition read3 :: "byte list \<Rightarrow> int \<Rightarrow> panic + (byte \<times> byte \<times> byte)" where
  "read3 buf i =
     (case byte_at buf i of Inl e \<Rightarrow> Inl e | Inr r \<Rightarrow>
       (case byte_at buf (i + 1) of Inl e \<Rightarrow> Inl e | Inr g \<Rightarrow>
          (case byte_at buf (i + 2) of Inl e \<Rightarrow> Inl e | Inr b \<Rightarrow> Inr (r, g, b))))"

text \<open>
  \<^verbatim>\<open>for x := 0; x < n; x++ { body }\<close> runs the body on \<open>[0..<nat n]\<close> (no iteration when
  \<open>n \<le> 0\<close>) and stops at the first panic.
\<close>

fun for_loop :: "nat list \<Rightarrow> (int \<Rightarrow> 's \<Rightarrow> panic + 's) \<Rightarrow> 's \<Rightarrow> panic + 's" where
  "for_loop [] body s = Inr s"
| "for_loop (x # xs) body s =
     (case body (int x) s of Inl e \<Rightarrow> Inl e | Inr s' \<Rightarrow> for_loop xs body s')"

section \<open>The row reducers\<close>

text \<open>The accumulation step shared by \<^verbatim>\<open>AverageColor\<close> and \<^verbatim>\<open>AverageColorCol\<close>: three
  \<^verbatim>\<open>uint64\<close> sums.\<close>

definition sum_step ::
  "byte list \<Rightarrow> int \<Rightarrow> 64 word \<times> 64 word \<times> 64 word \<Rightarrow> panic + 64 word \<times> 64 word \<times> 64 word" where
  "sum_step buf i = (\<lambda>(rSum, gSum, bSum).
     case read3 buf i of Inl e \<Rightarrow> Inl e
     | Inr (r, g, b) \<Rightarrow> Inr (rSum + ucast r, gSum + ucast g, bSum + ucast b))"

definition min_step :: "byte list \<Rightarrow> int \<Rightarrow> byte \<times> byte \<times> byte \<Rightarrow> panic + byte \<times> byte \<times> byte" where
  "min_step buf i = (\<lambda>(rMin, gMin, bMin).
     case read3 buf i of Inl e \<Rightarrow> Inl e
     | Inr (r, g, b) \<Rightarrow>
         Inr (if r < rMin then r else rMin, if g < gMin then g else gMin,
              if b < bMin then b else bMin))"

definition max_step :: "byte list \<Rightarrow> int \<Rightarrow> byte \<times> byte \<times> byte \<Rightarrow> panic + byte \<times> byte \<times> byte" where
  "max_step buf i = (\<lambda>(rMax, gMax, bMax).
     case read3 buf i of Inl e \<Rightarrow> Inl e
     | Inr (r, g, b) \<Rightarrow>
         Inr (if r > rMax then r else rMax, if g > gMax then g else gMax,
              if b > bMax then b else bMax))"

text \<open>The division and the \<^verbatim>\<open>uint8\<close> conversions that end both average reducers;
  \<^verbatim>\<open>n := uint64(width)\<close> is the conversion of a signed to an unsigned 64-bit integer.\<close>

definition average_of :: "64 word \<times> 64 word \<times> 64 word \<Rightarrow> int \<Rightarrow> panic + rgba" where
  "average_of = (\<lambda>(rSum, gSum, bSum) count.
     (let n = (word_of_int count :: 64 word) in
      if n = 0 then Inl DivideByZero
      else Inr \<lparr>R = ucast (rSum div n), G = ucast (gSum div n), B = ucast (bSum div n),
                A = 255\<rparr>))"

definition AverageColor :: "byte list \<Rightarrow> int \<Rightarrow> panic + rgba" where
  "AverageColor row width =
     (case for_loop [0..<nat width] (\<lambda>x. sum_step row (x * 3)) (0, 0, 0) of
        Inl e \<Rightarrow> Inl e
      | Inr totals \<Rightarrow> average_of totals width)"

definition MinColor :: "byte list \<Rightarrow> int \<Rightarrow> panic + rgba" where
  "MinColor row width =
     (case for_loop [0..<nat width] (\<lambda>x. min_step row (x * 3)) (255, 255, 255) of
        Inl e \<Rightarrow> Inl e
      | Inr (rMin, gMin, bMin) \<Rightarrow> Inr \<lparr>R = rMin, G = gMin, B = bMin, A = 255\<rparr>)"

definition MaxColor :: "byte list \<Rightarrow> int \<Rightarrow> panic + rgba" where
  "MaxColor row width =
     (case for_loop [0..<nat width] (\<lambda>x. max_step row (x * 3)) (0, 0, 0) of
        Inl e \<Rightarrow> Inl e
      | Inr (rMax, gMax, bMax) \<Rightarrow> Inr \<lparr>R = rMax, G = gMax, B = bMax, A = 255\<rparr>)"

subsection \<open>The most common colour\<close>

text \<open>\<^verbatim>\<open>uint32(r)<<16 | uint32(g)<<8 | uint32(b)\<close>.\<close>

definition pack :: "byte \<times> byte \<times> byte \<Rightarrow> 32 word" where
  "pack = (\<lambda>(r, g, b). push_bit 16 (ucast r) OR push_bit 8 (ucast g) OR ucast b)"

text \<open>The colour built from the winning key at the end of \<^verbatim>\<open>MostCommonColor\<close>.\<close>

definition unpack :: "32 word \<Rightarrow> rgba" where
  "unpack mostCommon =
     \<lparr>R = ucast (drop_bit 16 mostCommon AND 0xFF), G = ucast (drop_bit 8 mostCommon AND 0xFF),
      B = ucast (mostCommon AND 0xFF), A = 255\<rparr>"

text \<open>
  The map \<^verbatim>\<open>colorCount\<close> is an association list with one entry per key.
  \<^verbatim>\<open>colorCount[packed]++\<close> reads the key (0 when it is missing), adds one and stores the
  result under the key.
\<close>

type_synonym color_count = "(32 word \<times> int) list"

definition incr :: "color_count \<Rightarrow> 32 word \<Rightarrow> color_count" where
  "incr colorCount packed =
     AList.update packed ((case map_of colorCount packed of None \<Rightarrow> 0 | Some c \<Rightarrow> c) + 1)
       colorCount"

definition count_step :: "byte list \<Rightarrow> int \<Rightarrow> color_count \<Rightarrow> panic + color_count" where
  "count_step buf i colorCount =
     (case read3 buf i of Inl e \<Rightarrow> Inl e | Inr rgb \<Rightarrow> Inr (incr colorCount (pack rgb)))"

text \<open>
  \<^verbatim>\<open>for col, count := range colorCount\<close>: Go leaves the iteration order of a map
  unspecified and its run time randomises it.  The order is therefore a parameter
  \<open>iter\<close> of the model: the entries of the map in the order in which this execution of the
  \<^verbatim>\<open>range\<close> statement visits them.  An order the run time may choose visits exactly the
  entries of the map (\<open>legal_order\<close>).
\<close>

type_synonym map_order = "color_count \<Rightarrow> color_count"

definition legal_order :: "map_order \<Rightarrow> bool" where
  "legal_order iter \<longleftrightarrow> (\<forall>m. set (iter m) = set m)"

definition range_max :: "color_count \<Rightarrow> int \<times> 32 word" where
  "range_max visited =
     fold (\<lambda>(col, count) (maxCount, mostCommon).
             if count > maxCount then (count, col) else (maxCount, mostCommon))
          visited (0, 0)"

definition MostCommonColor :: "map_order \<Rightarrow> byte list \<Rightarrow> int \<Rightarrow> panic + rgba" where
  "MostCommonColor iter row width =
     (case for_loop [0..<nat width] (\<lambda>x. count_step row (x * 3)) [] of
        Inl e \<Rightarrow> Inl e
      | Inr colorCount \<Rightarrow> Inr (unpack (snd (range_max (iter colorCount)))))"

section \<open>The column reducers\<close>

definition AverageColorCol :: "byte list \<Rightarrow> int \<Rightarrow> int \<Rightarrow> int \<Rightarrow> panic + rgba" where
  "AverageColorCol buf col width height =
     (case for_loop [0..<nat height] (\<lambda>y. sum_step buf ((y * width + col) * 3)) (0, 0, 0) of
        Inl e \<Rightarrow> Inl e
      | Inr totals \<Rightarrow> average_of totals height)"

definition MinColorCol :: "byte list \<Rightarrow> int \<Rightarrow> int \<Rightarrow> int \<Rightarrow> panic + rgba" where
  "MinColorCol buf col width height =
     (case for_loop [0..<nat height] (\<lambda>y. min_step buf ((y * width + col) * 3))
             (255, 255, 255) of
        Inl e \<Rightarrow> Inl e
      | Inr (rMin, gMin, bMin) \<Rightarrow> Inr \<lparr>R = rMin, G = gMin, B = bMin, A = 255\<rparr>)"

definition MaxColorCol :: "byte list \<Rightarrow> int \<Rightarrow> int \<Rightarrow> int \<Rightarrow> panic + rgba" where
  "MaxColorCol buf col width height =
     (case for_loop [0..<nat height] (\<lambda>y. max_step buf ((y * width + col) * 3)) (0, 0, 0) of
        Inl e \<Rightarrow> Inl e
      | Inr (rMax, gMax, bMax) \<Rightarrow> Inr \<lparr>R = rMax, G = gMax, B = bMax, A = 255\<rparr>)"

definition MostCommonColorCol ::
  "map_order \<Rightarrow> byte list \<Rightarrow> int \<Rightarrow> int \<Rightarrow> int \<Rightarrow> panic + rgba" where
  "MostCommonColorCol iter buf col width height =
     (case for_loop [0..<nat height] (\<lambda>y. count_step buf ((y * width + col) * 3)) [] of
        Inl e \<Rightarrow> Inl e
      | Inr colorCount \<Rightarrow> Inr (unpack (snd (range_max (iter colorCount)))))"

section \<open>Rows of a frame\<close>

text \<open>The slice expression \<^verbatim>\<open>buf[lo:hi]\<close> on a slice whose capacity is its length.\<close>

definition slice :: "byte list \<Rightarrow> int \<Rightarrow> int \<Rightarrow> panic + byte list" where
  "slice buf lo hi =
     (if 0 \<le> lo \<and> lo \<le> hi \<and> hi \<le> int (length buf)
      then Inr (take (nat (hi - lo)) (drop (nat lo) buf))
      else Inl SliceBoundsOutOfRange)"

text \<open>\<^verbatim>\<open>rowStart := y * width * 3; row := frameBuf[rowStart : rowStart+width*3]\<close>, in
  64-bit arithmetic.\<close>

definition frame_row :: "byte list \<Rightarrow> int \<Rightarrow> int \<Rightarrow> panic + byte list" where
  "frame_row frameBuf y width =
     (let rowStart = int64 (y * width * 3)
      in slice frameBuf rowStart (int64 (rowStart + width * 3)))"

section \<open>Images of the Go standard library\<close>

text \<open>
  \<^verbatim>\<open>image.Point\<close>, \<^verbatim>\<open>image.Rectangle\<close> and \<^verbatim>\<open>*image.RGBA\<close>, with the operations the program
  calls.  An image is its rectangle and the colour stored at each point; the byte layout
  of \<^verbatim>\<open>Pix\<close> and \<^verbatim>\<open>Stride\<close> is not modelled.
\<close>

record point =
  X :: int
  Y :: int

record rectangle =
  rMin :: point
  rMax :: point

text \<open>\<^verbatim>\<open>image.Rect(x0, y0, x1, y1)\<close> orders its coordinates.\<close>

definition image_Rect :: "int \<Rightarrow> int \<Rightarrow> int \<Rightarrow> int \<Rightarrow> rectangle" where
  "image_Rect x0 y0 x1 y1 =
     \<lparr>rMin = \<lparr>X = (if x0 > x1 then x1 else x0), Y = (if y0 > y1 then y1 else y0)\<rparr>,
      rMax = \<lparr>X = (if x0 > x1 then x0 else x1), Y = (if y0 > y1 then y0 else y1)\<rparr>\<rparr>"

definition ZR :: rectangle where
  "ZR = \<lparr>rMin = \<lparr>X = 0, Y = 0\<rparr>, rMax = \<lparr>X = 0, Y = 0\<rparr>\<rparr>"

definition Dx :: "rectangle \<Rightarrow> int" where
  "Dx r = int64 (X (rMax r) - X (rMin r))"

definition Dy :: "rectangle \<Rightarrow> int" where
  "Dy r = int64 (Y (rMax r) - Y (rMin r))"

definition Empty :: "rectangle \<Rightarrow> bool" where
  "Empty r \<longleftrightarrow> X (rMin r) \<ge> X (rMax r) \<or> Y (rMin r) \<ge> Y (rMax r)"

text \<open>\<^verbatim>\<open>Point{x, y}.In(r)\<close>.\<close>

definition In :: "int \<Rightarrow> int \<Rightarrow> rectangle \<Rightarrow> bool" where
  "In x y r \<longleftrightarrow> X (rMin r) \<le> x \<and> x < X (rMax r) \<and> Y (rMin r) \<le> y \<and> y < Y (rMax r)"

text \<open>\<^verbatim>\<open>r.Intersect(s)\<close>: the largest rectangle inside both, and \<^verbatim>\<open>ZR\<close> when that is empty.\<close>

definition Intersect :: "rectangle \<Rightarrow> rectangle \<Rightarrow> rectangle" where
  "Intersect r s =
     (let r' = \<lparr>rMin = \<lparr>X = (if X (rMin r) < X (rMin s) then X (rMin s) else X (rMin r)),
                        Y = (if Y (rMin r) < Y (rMin s) then Y (rMin s) else Y (rMin r))\<rparr>,
                rMax = \<lparr>X = (if X (rMax r) > X (rMax s) then X (rMax s) else X (rMax r)),
                        Y = (if Y (rMax r) > Y (rMax s) then Y (rMax s) else Y (rMax r))\<rparr>\<rparr>
      in if Empty r' then ZR else r')"

record image_RGBA =
  Rect :: rectangle
  Pixels :: "int \<times> int \<Rightarrow> rgba"

text \<open>The zero value \<^verbatim>\<open>color.RGBA{}\<close>.\<close>

definition zero_rgba :: rgba where
  "zero_rgba = \<lparr>R = 0, G = 0, B = 0, A = 0\<rparr>"

text \<open>
  \<^verbatim>\<open>mul3NonNeg(x, y, z)\<close> of the package \<^verbatim>\<open>image\<close>: the product, or \<open>-1\<close> when an
  argument is negative, when one of the two 64-bit multiplications overflows, or when the
  product does not fit an \<^verbatim>\<open>int\<close>.
\<close>

definition mul3NonNeg :: "int \<Rightarrow> int \<Rightarrow> int \<Rightarrow> int" where
  "mul3NonNeg x y z =
     (if x < 0 \<or> y < 0 \<or> z < 0 then - 1
      else if 2 ^ 64 \<le> x * y then - 1
      else if 2 ^ 64 \<le> x * y * z then - 1
      else if 2 ^ 63 \<le> x * y * z then - 1
      else x * y * z)"

text \<open>
  \<^verbatim>\<open>image.NewRGBA(r)\<close>: the length of the pixel buffer is
  \<^verbatim>\<open>mul3NonNeg(4, r.Dx(), r.Dy())\<close>; the function panics when that is negative, and its
  \<^verbatim>\<open>make\<close> panics when the length is beyond the allocation limit.  Every pixel of the new
  image is zero.
\<close>

definition NewRGBA :: "rectangle \<Rightarrow> panic + image_RGBA" where
  "NewRGBA r =
     (let totalLength = mul3NonNeg 4 (Dx r) (Dy r)
      in if totalLength < 0 then Inl ImageHugeOrNegative
         else if maxAlloc < totalLength then Inl MakeSliceLenOutOfRange
         else Inr \<lparr>Rect = r, Pixels = (\<lambda>p. zero_rgba)\<rparr>)"

text \<open>\<^verbatim>\<open>p.Set(x, y, c)\<close> for a \<^verbatim>\<open>color.RGBA\<close>: a point outside the rectangle is ignored.\<close>

definition Set :: "image_RGBA \<Rightarrow> int \<Rightarrow> int \<Rightarrow> rgba \<Rightarrow> image_RGBA" where
  "Set p x y c = (if \<not> In x y (Rect p) then p else p\<lparr>Pixels := (Pixels p)((x, y) := c)\<rparr>)"


text \<open>\<^verbatim>\<open>p.SubImage(r)\<close>: the part of the image inside \<open>r\<close>; the zero image \<^verbatim>\<open>&RGBA{}\<close> when
  the intersection is empty.\<close>

definition SubImage :: "image_RGBA \<Rightarrow> rectangle \<Rightarrow> image_RGBA" where
  "SubImage p r =
     (let r' = Intersect r (Rect p)
      in if Empty r' then \<lparr>Rect = ZR, Pixels = (\<lambda>p. zero_rgba)\<rparr> else p\<lparr>Rect := r'\<rparr>)"

section \<open>The pipeline of \<^verbatim>\<open>Generate\<close>\<close>

text \<open>What \<^verbatim>\<open>video.GetInfo\<close> returns when it succeeds.\<close>

record info =
  Width :: int
  Height :: int
  FrameCount :: int

datatype gen_error =
  ProbeFailed | InvalidVideoProperties | FailedToReadFrame | Timeout | Panicked panic

text \<open>\<^verbatim>\<open>maxFrames := frameCount + frameCount/10 + 10\<close>; Go's division truncates, and the sum
  wraps at 64 bits.\<close>

definition maxFrames :: "int \<Rightarrow> int" where
  "maxFrames frameCount = int64 (frameCount + frameCount sdiv 10 + 10)"

text \<open>The \<^verbatim>\<open>switch mode\<close> of the row loop and of the column loop.\<close>

definition reduce_row :: "map_order \<Rightarrow> string \<Rightarrow> byte list \<Rightarrow> int \<Rightarrow> panic + rgba" where
  "reduce_row iter mode row width =
     (if mode = ''average'' then AverageColor row width
      else if mode = ''min'' then MinColor row width
      else if mode = ''max'' then MaxColor row width
      else MostCommonColor iter row width)"

definition reduce_col :: "map_order \<Rightarrow> string \<Rightarrow> byte list \<Rightarrow> int \<Rightarrow> int \<Rightarrow> int \<Rightarrow> panic + rgba" where
  "reduce_col iter mode frameBuf x width height =
     (if mode = ''average'' then AverageColorCol frameBuf x width height
      else if mode = ''min'' then MinColorCol frameBuf x width height
      else if mode = ''max'' then MaxColorCol frameBuf x width height
      else MostCommonColorCol iter frameBuf x width height)"

text \<open>
  The parameters of a run that stay fixed while the frames are read.  Go chooses the order
  of a map iteration anew for every \<^verbatim>\<open>range\<close> statement it executes: \<open>run_iter r frameIdx k\<close>
  is the order of the one that reduces line \<open>k\<close> (a column \<open>x\<close> or a row \<open>y\<close>) of the
  frame read at \<open>frameIdx\<close>.  The index names the frame in every run of fewer than
  \<open>2 ^ 64\<close> frames.
\<close>

record run =
  run_iter :: "int \<Rightarrow> int \<Rightarrow> map_order"
  run_mode :: string
  run_vertical :: bool
  run_width :: int
  run_height :: int

text \<open>The body of the frame loop between the read and \<^verbatim>\<open>frameIdx++\<close>: one line of the
  canvas is written at \<open>frameIdx\<close>.\<close>

definition process_frame :: "run \<Rightarrow> byte list \<Rightarrow> image_RGBA \<Rightarrow> int \<Rightarrow> panic + image_RGBA" where
  "process_frame r frameBuf dnaImage frameIdx =
     (if run_vertical r then
        for_loop [0..<nat (run_width r)]
          (\<lambda>x img. case reduce_col (run_iter r frameIdx x) (run_mode r) frameBuf x (run_width r)
                             (run_height r) of
                      Inl e \<Rightarrow> Inl e
                    | Inr c \<Rightarrow> Inr (Set img x frameIdx c))
          dnaImage
      else
        for_loop [0..<nat (run_height r)]
          (\<lambda>y img. case frame_row frameBuf y (run_width r) of
                      Inl e \<Rightarrow> Inl e
                    | Inr row \<Rightarrow>
                        (case reduce_row (run_iter r frameIdx y) (run_mode r) row (run_width r) of
                           Inl e \<Rightarrow> Inl e
                         | Inr c \<Rightarrow> Inr (Set img frameIdx y c)))
          dnaImage)"

text \<open>
  The decoder's standard output: the bytes it still delivers, and how the pipe ends after
  them, cleanly or with a read error.
\<close>

datatype stream_end = CleanEOF | ReadError

record byte_stream =
  pending :: "byte list"
  ending :: stream_end

text \<open>
  \<^verbatim>\<open>io.ReadFull(reader, frameBuf)\<close> for a buffer of \<open>n\<close> bytes: the buffer is filled when
  \<open>n\<close> bytes are left (at once when \<open>n = 0\<close>); otherwise the error of the pipe, which at a
  clean end is \<^verbatim>\<open>io.EOF\<close> if no byte was read and \<^verbatim>\<open>io.ErrUnexpectedEOF\<close> if some were.
\<close>

datatype read_result = Filled "byte list" byte_stream | EOF | ErrUnexpectedEOF | OtherError

definition ReadFull :: "byte_stream \<Rightarrow> nat \<Rightarrow> read_result" where
  "ReadFull reader n =
     (if n \<le> length (pending reader)
      then Filled (take n (pending reader)) (reader\<lparr>pending := drop n (pending reader)\<rparr>)
      else if ending reader = ReadError then OtherError
      else if pending reader = [] then EOF
      else ErrUnexpectedEOF)"

text \<open>
  The frame loop \<^verbatim>\<open>for { ... }\<close>.  It ends at \<^verbatim>\<open>io.EOF\<close> and at \<^verbatim>\<open>io.ErrUnexpectedEOF\<close>
  alike, returns at any other read error, and need not end at all: a run that never leaves
  the loop has the value \<open>None\<close>.  \<^verbatim>\<open>frameIdx++\<close> wraps at 64 bits.
\<close>

partial_function (option) stream_frames ::
  "run \<Rightarrow> nat \<Rightarrow> byte_stream \<Rightarrow> image_RGBA \<Rightarrow> int \<Rightarrow> (gen_error + image_RGBA \<times> int) option" where
  "stream_frames r frameSize reader dnaImage frameIdx =
     (case ReadFull reader frameSize of
        EOF \<Rightarrow> Some (Inr (dnaImage, frameIdx))
      | ErrUnexpectedEOF \<Rightarrow> Some (Inr (dnaImage, frameIdx))
      | OtherError \<Rightarrow> Some (Inl FailedToReadFrame)
      | Filled frameBuf reader' \<Rightarrow>
          (case process_frame r frameBuf dnaImage frameIdx of
             Inl e \<Rightarrow> Some (Inl (Panicked e))
           | Inr dnaImage' \<Rightarrow>
               stream_frames r frameSize reader' dnaImage' (int64 (frameIdx + 1))))"

declare stream_frames.simps [code]

text \<open>
  \<^verbatim>\<open>Generate\<close> (and \<^verbatim>\<open>GenerateWithLegend\<close>, whose code is the same here) from the probe to
  the cropped \<^verbatim>\<open>finalImage\<close>.  Its inputs are what the outside world supplies: the result of
  \<^verbatim>\<open>video.GetInfo\<close> (\<open>None\<close> for an error; the three numbers are values of Go's \<^verbatim>\<open>int\<close>),
  the decoder's output, whether \<^verbatim>\<open>cmd.Wait\<close> failed after the deadline, and the orders of
  the map iterations.  The canvas is allocated first; then the frame size
  \<^verbatim>\<open>width * height * 3\<close> is computed in 64-bit arithmetic, and \<^verbatim>\<open>bufio.NewReaderSize\<close> and
  \<^verbatim>\<open>make([]byte, frameSize)\<close> allocate the read buffer and the frame buffer, where
  \<^verbatim>\<open>make\<close> panics on a size that is negative or beyond the allocation limit.  The decoder
  is taken to have started: the errors of \<^verbatim>\<open>cmd.StdoutPipe\<close> and \<^verbatim>\<open>cmd.Start\<close> are not
  modelled.  The resizing, the decoration and the PNG encoding that follow are not part of
  this function.
\<close>

definition Generate ::
  "(int \<Rightarrow> int \<Rightarrow> map_order) \<Rightarrow> info option \<Rightarrow> byte_stream \<Rightarrow> bool \<Rightarrow> string \<Rightarrow> bool \<Rightarrow>
   (gen_error + image_RGBA) option" where
  "Generate order probe stdout deadline_exceeded mode' vertical' =
     (case probe of
        None \<Rightarrow> Some (Inl ProbeFailed)
      | Some i \<Rightarrow>
          (let width' = Width i; height' = Height i; frameCount = FrameCount i in
           if frameCount = 0 \<or> height' = 0 then Some (Inl InvalidVideoProperties)
           else
             (case (if vertical' then NewRGBA (image_Rect 0 0 width' (maxFrames frameCount))
                    else NewRGBA (image_Rect 0 0 (maxFrames frameCount) height')) of
                Inl p \<Rightarrow> Some (Inl (Panicked p))
              | Inr dnaImage \<Rightarrow>
                  (let frameSize = int64 (width' * height' * 3)
                   in if frameSize < 0 \<or> maxAlloc < frameSize
                      then Some (Inl (Panicked MakeSliceLenOutOfRange))
                      else
                        (case stream_frames
                                \<lparr>run_iter = order, run_mode = mode', run_vertical = vertical',
                                 run_width = width', run_height = height'\<rparr>
                                (nat frameSize) stdout dnaImage 0 of
                           None \<Rightarrow> None
                         | Some (Inl e) \<Rightarrow> Some (Inl e)
                         | Some (Inr (dnaImage', frameIdx)) \<Rightarrow>
                             if deadline_exceeded then Some (Inl Timeout)
                             else Some (Inr (SubImage dnaImage'
                                               (if vertical' then image_Rect 0 0 width' frameIdx
                                                else image_Rect 0 0 frameIdx height'))))))))"

text \<open>The capacity as the specification states it: \<open>ceil(estimatedFrameCount * 1.1) + 10\<close>.\<close>

definition capacityLines :: "int \<Rightarrow> int" where
  "capacityLines estimatedFrameCount = \<lceil>of_int estimatedFrameCount * (11 / 10 :: rat)\<rceil> + 10"

section \<open>Floating point\<close>













section \<open>Resampling\<close>






section \<open>Reference notions of the specification\<close>

text \<open>
  The samples of one scanline, as the specification names them: the \<open>width\<close> pixels of a
  row stored from byte 0 on, and the \<open>height\<close> pixels of column \<open>x\<close> of a row-major
  frame, pixel \<open>y\<close> at byte offset \<open>(y * width + x) * 3\<close>.
\<close>

definition row_samples :: "byte list \<Rightarrow> int \<Rightarrow> (byte \<times> byte \<times> byte) list" where
  "row_samples row width =
     map (\<lambda>x. (row ! (3 * x), row ! (3 * x + 1), row ! (3 * x + 2))) [0..<nat width]"

definition col_samples :: "byte list \<Rightarrow> int \<Rightarrow> int \<Rightarrow> int \<Rightarrow> (byte \<times> byte \<times> byte) list" where
  "col_samples buf x width height =
     map (\<lambda>y. (buf ! nat ((int y * width + x) * 3), buf ! nat ((int y * width + x) * 3 + 1),
               buf ! nat ((int y * width + x) * 3 + 2))) [0..<nat height]"

definition reds :: "(byte \<times> byte \<times> byte) list \<Rightarrow> byte list" where
  "reds ss = map (\<lambda>p. fst p) ss"

definition greens :: "(byte \<times> byte \<times> byte) list \<Rightarrow> byte list" where
  "greens ss = map (\<lambda>p. fst (snd p)) ss"

definition blues :: "(byte \<times> byte \<times> byte) list \<Rightarrow> byte list" where
  "blues ss = map (\<lambda>p. snd (snd p)) ss"

text \<open>The arithmetic mean of a channel, truncated: the sum is not negative, so rounding down
  is rounding towards zero.\<close>

definition mean :: "byte list \<Rightarrow> int" where
  "mean xs = sum_list (map uint xs) div int (length xs)"

text \<open>The pixels at the byte offsets \<open>off 0, \<dots>, off (n - 1)\<close> of a buffer: what a reducer's
  loop reads when none of its reads is out of range.\<close>

definition samples_at :: "byte list \<Rightarrow> (int \<Rightarrow> int) \<Rightarrow> nat \<Rightarrow> (byte \<times> byte \<times> byte) list" where
  "samples_at buf off n =
     map (\<lambda>k. (buf ! nat (off (int k)), buf ! nat (off (int k) + 1), buf ! nat (off (int k) + 2)))
       [0..<n]"

text \<open>The keys a most-common reducer counts, and the keys that occur most often among them.\<close>

definition row_keys :: "byte list \<Rightarrow> int \<Rightarrow> 32 word list" where
  "row_keys row width = map pack (row_samples row width)"

definition most_frequent :: "32 word list \<Rightarrow> 32 word \<Rightarrow> bool" where
  "most_frequent ks k \<longleftrightarrow> k \<in> set ks \<and> (\<forall>k' \<in> set ks. count_list ks k' \<le> count_list ks k)"

definition key_of :: "rgba \<Rightarrow> 32 word" where
  "key_of c = pack (R c, G c, B c)"

text \<open>The state of \<^verbatim>\<open>colorCount\<close> after the keys \<open>ks\<close> have been counted.\<close>

definition counts_of :: "32 word list \<Rightarrow> color_count \<Rightarrow> bool" where
  "counts_of ks m \<longleftrightarrow>
     distinct (map fst m) \<and>
     (\<forall>k. map_of m k = (if k \<in> set ks then Some (int (count_list ks k)) else None))"

text \<open>
  The frame loop on a list of complete frames: what it does to the canvas and to
  \<open>frameIdx\<close> while the reads succeed.
\<close>

fun process_frames ::
  "run \<Rightarrow> byte list list \<Rightarrow> image_RGBA \<Rightarrow> int \<Rightarrow> panic + image_RGBA \<times> int" where
  "process_frames r [] dnaImage frameIdx = Inr (dnaImage, frameIdx)"
| "process_frames r (frameBuf # frames) dnaImage frameIdx =
     (case process_frame r frameBuf dnaImage frameIdx of
        Inl e \<Rightarrow> Inl e
      | Inr dnaImage' \<Rightarrow> process_frames r frames dnaImage' (int64 (frameIdx + 1)))"

text \<open>The first line index beyond a canvas, along the axis that grows with the frames.\<close>

definition line_limit :: "run \<Rightarrow> rectangle \<Rightarrow> int" where
  "line_limit r rect = (if run_vertical r then Y (rMax rect) else X (rMax rect))"

text \<open>The bounds of the image a run hands on, when it hands one on.\<close>

fun result_bounds :: "(gen_error + image_RGBA) option \<Rightarrow> rectangle option" where
  "result_bounds (Some (Inr img)) = Some (Rect img)"
| "result_bounds _ = None"

definition result_size :: "(gen_error + image_RGBA) option \<Rightarrow> (int \<times> int) option" where
  "result_size res = map_option (\<lambda>b. (Dx b, Dy b)) (result_bounds res)"

text \<open>The canvas rectangle and the crop rectangle of a run.\<close>

definition canvas_rect :: "bool \<Rightarrow> int \<Rightarrow> int \<Rightarrow> int \<Rightarrow> rectangle" where
  "canvas_rect vertical' width' height' frameCount =
     (if vertical' then image_Rect 0 0 width' (maxFrames frameCount)
      else image_Rect 0 0 (maxFrames frameCount) height')"

definition crop_rect :: "bool \<Rightarrow> int \<Rightarrow> int \<Rightarrow> int \<Rightarrow> rectangle" where
  "crop_rect vertical' width' height' frameIdx =
     (if vertical' then image_Rect 0 0 width' frameIdx else image_Rect 0 0 frameIdx height')"

text \<open>
  The iteration orders in which every \<^verbatim>\<open>range\<close> statement of a run visits the entries of
  its map as the association list holds them, that is, in the order in which the keys were
  first counted.
\<close>

definition insertion_order :: "int \<Rightarrow> int \<Rightarrow> map_order" where
  "insertion_order frameIdx k = id"




section \<open>64-bit arithmetic\<close>

lemma int64_id: "- (2 ^ 63) \<le> k \<Longrightarrow> k < 2 ^ 63 \<Longrightarrow> int64 k = k"
  by (simp add: int64_def mod_pos_pos_trivial)

lemma int64_wrap: "2 ^ 63 \<le> k \<Longrightarrow> k < 2 ^ 64 \<Longrightarrow> int64 k = k - 2 ^ 64"
proof -
  assume k: "2 ^ 63 \<le> k" "k < 2 ^ 64"
  have e: "k + 2 ^ 63 = (k - 2 ^ 63) + 2 ^ 64"
    by simp
  have "(k + 2 ^ 63) mod 2 ^ 64 = (k - 2 ^ 63) mod 2 ^ 64"
    by (subst e) (rule mod_add_self2)
  also have "\<dots> = k - 2 ^ 63"
    using k by (simp add: mod_pos_pos_trivial)
  finally show ?thesis
    by (simp add: int64_def)
qed

lemma int64_range: "- (2 ^ 63) \<le> int64 k \<and> int64 k < 2 ^ 63"
proof -
  have "0 \<le> (k + 2 ^ 63) mod 2 ^ 64" "(k + 2 ^ 63) mod 2 ^ 64 < 2 ^ 64"
    by simp_all
  then show ?thesis
    by (simp add: int64_def)
qed

section \<open>Loops and reads\<close>

lemma samples_at_Suc:
  "samples_at buf off (Suc n) =
     samples_at buf off n @
       [(buf ! nat (off (int n)), buf ! nat (off (int n) + 1), buf ! nat (off (int n) + 2))]"
  by (simp add: samples_at_def)

lemma length_samples_at: "length (samples_at buf off n) = n"
  by (simp add: samples_at_def)

lemma read3_in_range:
  "0 \<le> i \<Longrightarrow> i + 2 < int (length buf) \<Longrightarrow>
   read3 buf i = Inr (buf ! nat i, buf ! nat (i + 1), buf ! nat (i + 2))"
  by (simp add: read3_def byte_at_def)

lemma if_less_min: "(if (r :: byte) < a then r else a) = min r a"
  by (simp add: min_def not_less less_le)

lemma if_greater_max: "(if (r :: byte) > a then r else a) = max r a"
  by (simp add: max_def not_less less_le)

lemma min_step_in_range:
  "0 \<le> i \<Longrightarrow> i + 2 < int (length buf) \<Longrightarrow>
   min_step buf i (a, b, c) =
     Inr (min (buf ! nat i) a, min (buf ! nat (i + 1)) b, min (buf ! nat (i + 2)) c)"
  by (simp add: min_step_def read3_in_range if_less_min)

lemma max_step_in_range:
  "0 \<le> i \<Longrightarrow> i + 2 < int (length buf) \<Longrightarrow>
   max_step buf i (a, b, c) =
     Inr (max (buf ! nat i) a, max (buf ! nat (i + 1)) b, max (buf ! nat (i + 2)) c)"
  by (simp add: max_step_def read3_in_range if_greater_max)

lemma for_loop_append:
  "for_loop (xs @ ys) body s =
     (case for_loop xs body s of Inl e \<Rightarrow> Inl e | Inr s' \<Rightarrow> for_loop ys body s')"
  by (induction xs arbitrary: s) (auto split: sum.splits)

lemma sum_step_in_range:
  "0 \<le> i \<Longrightarrow> i + 2 < int (length buf) \<Longrightarrow>
   sum_step buf i (a, b, c) =
     Inr (a + ucast (buf ! nat i), b + ucast (buf ! nat (i + 1)), c + ucast (buf ! nat (i + 2)))"
  by (simp add: sum_step_def read3_in_range)

lemma min_loop:
  assumes "\<And>k. k < n \<Longrightarrow> 0 \<le> off (int k) \<and> off (int k) + 2 < int (length buf)"
  shows "for_loop [0..<n] (\<lambda>x. min_step buf (off x)) (a, b, c) =
     Inr (fold min (map fst (samples_at buf off n)) a,
          fold min (map (\<lambda>p. fst (snd p)) (samples_at buf off n)) b,
          fold min (map (\<lambda>p. snd (snd p)) (samples_at buf off n)) c)"
  using assms
proof (induction n)
  case 0
  then show ?case by (simp add: samples_at_def)
next
  case (Suc n)
  then show ?case
    by (simp add: for_loop_append samples_at_Suc min_step_in_range)
qed

lemma max_loop:
  assumes "\<And>k. k < n \<Longrightarrow> 0 \<le> off (int k) \<and> off (int k) + 2 < int (length buf)"
  shows "for_loop [0..<n] (\<lambda>x. max_step buf (off x)) (a, b, c) =
     Inr (fold max (map fst (samples_at buf off n)) a,
          fold max (map (\<lambda>p. fst (snd p)) (samples_at buf off n)) b,
          fold max (map (\<lambda>p. snd (snd p)) (samples_at buf off n)) c)"
  using assms
proof (induction n)
  case 0
  then show ?case by (simp add: samples_at_def)
next
  case (Suc n)
  then show ?case
    by (simp add: for_loop_append samples_at_Suc max_step_in_range)
qed

lemma sum_loop:
  assumes "\<And>k. k < n \<Longrightarrow> 0 \<le> off (int k) \<and> off (int k) + 2 < int (length buf)"
  shows "for_loop [0..<n] (\<lambda>x. sum_step buf (off x)) (a, b, c) =
     Inr (a + sum_list (map (\<lambda>p. ucast (fst p)) (samples_at buf off n)),
          b + sum_list (map (\<lambda>p. ucast (fst (snd p))) (samples_at buf off n)),
          c + sum_list (map (\<lambda>p. ucast (snd (snd p))) (samples_at buf off n)))"
  using assms
proof (induction n)
  case 0
  then show ?case by (simp add: samples_at_def)
next
  case (Suc n)
  then show ?case
    by (simp add: for_loop_append samples_at_Suc sum_step_in_range add.assoc)
qed

subsection \<open>Sums, minima and maxima\<close>

lemma sum_list_uint_bounds:
  "0 \<le> sum_list (map (\<lambda>a. uint (f a)) xs) \<and>
   sum_list (map (\<lambda>a. uint ((f :: 'a \<Rightarrow> byte) a)) xs) \<le> 255 * int (length xs)"
proof (induction xs)
  case Nil
  then show ?case by simp
next
  case (Cons x xs)
  have "uint (f x) < 2 ^ 8" using uint_lt2p [of "f x"] by simp
  with Cons show ?case by simp
qed

lemma uint_sum_list_ucast:
  "255 * int (length xs) < 2 ^ 64 \<Longrightarrow>
   uint (sum_list (map (\<lambda>a. ucast ((f :: 'a \<Rightarrow> byte) a)) xs) :: 64 word) = sum_list (map (\<lambda>a. uint (f a)) xs)"
proof (induction xs)
  case Nil
  then show ?case by simp
next
  case (Cons x xs)
  have ih: "uint (sum_list (map (\<lambda>a. ucast (f a)) xs) :: 64 word) = sum_list (map (\<lambda>a. uint (f a)) xs)"
    by (rule Cons.IH) (use Cons.prems in simp)
  have b: "0 \<le> sum_list (map (\<lambda>a. uint (f a)) (x # xs))"
    "sum_list (map (\<lambda>a. uint (f a)) (x # xs)) \<le> 255 * int (length (x # xs))"
    using sum_list_uint_bounds [of f "x # xs"] by blast+
  have "uint (sum_list (map (\<lambda>a. ucast (f a)) (x # xs)) :: 64 word) =
        (uint (f x) + sum_list (map (\<lambda>a. uint (f a)) xs)) mod 2 ^ 64"
    by (simp add: uint_word_ariths ih uint_up_ucast is_up)
  also have "\<dots> = uint (f x) + sum_list (map (\<lambda>a. uint (f a)) xs)"
    using b Cons.prems by (simp add: mod_pos_pos_trivial)
  finally show ?case by simp
qed

lemma fold_min_top: "xs \<noteq> [] \<Longrightarrow> fold min xs (255 :: byte) = Min (set xs)"
proof -
  assume "xs \<noteq> []"
  have "fold min xs (255 :: byte) = Min (set (255 # xs))"
    by (simp only: Min.set_eq_fold)
  also have "\<dots> = min 255 (Min (set xs))"
    using \<open>xs \<noteq> []\<close> by simp
  also have "\<dots> = Min (set xs)"
  proof -
    have "(255 :: byte) = - 1" by simp
    then show ?thesis by (simp only: word_order.extremum min.absorb2)
  qed
  finally show ?thesis .
qed

lemma fold_max_bot: "xs \<noteq> [] \<Longrightarrow> fold max xs (0 :: byte) = Max (set xs)"
proof -
  assume "xs \<noteq> []"
  have "fold max xs (0 :: byte) = Max (set (0 # xs))"
    by (simp only: Max.set_eq_fold)
  also have "\<dots> = max 0 (Max (set xs))"
    using \<open>xs \<noteq> []\<close> by simp
  also have "\<dots> = Max (set xs)"
    by (simp add: max_def)
  finally show ?thesis .
qed


lemma mean_bounds: "0 \<le> mean xs \<and> mean xs \<le> 255"
proof -
  have b: "0 \<le> sum_list (map uint xs)" "sum_list (map uint xs) \<le> 255 * int (length xs)"
    using sum_list_uint_bounds [of "\<lambda>a. a" xs] by simp_all
  show ?thesis
  proof (cases "xs = []")
    case True
    then show ?thesis by (simp add: mean_def)
  next
    case False
    then have "0 < int (length xs)" by simp
    have "sum_list (map uint xs) div int (length xs) \<le> 255 * int (length xs) div int (length xs)"
      using b(2) \<open>0 < int (length xs)\<close> by (rule zdiv_mono1)
    with b(1) \<open>0 < int (length xs)\<close> show ?thesis
      unfolding mean_def by (simp add: pos_imp_zdiv_nonneg_iff)
  qed
qed

lemma average_of_sums:
  assumes "1 \<le> count" and "255 * count < 2 ^ 64" and "int (length ss) = count"
  shows "average_of (sum_list (map (\<lambda>p. ucast (fst p)) ss), sum_list (map (\<lambda>p. ucast (fst (snd p))) ss),
            sum_list (map (\<lambda>p. ucast (snd (snd p))) ss)) count =
         Inr \<lparr>R = word_of_int (mean (map fst ss)), G = word_of_int (mean (map (\<lambda>p. fst (snd p)) ss)),
              B = word_of_int (mean (map (\<lambda>p. snd (snd p)) ss)), A = 255\<rparr>"
proof -
  have n: "uint (word_of_int count :: 64 word) = count"
    using assms(1,2) by (simp add: uint_word_of_int mod_pos_pos_trivial)
  then have nz: "(word_of_int count :: 64 word) \<noteq> 0"
    using assms(1) by auto
  have len: "255 * int (length ss) < 2 ^ 64" using assms by simp
  have q: "\<And>f :: _ \<Rightarrow> byte. (ucast (sum_list (map (\<lambda>a. ucast (f a)) ss) div (word_of_int count :: 64 word)) :: byte)
       = word_of_int (mean (map f ss))"
  proof -
    fix f :: "_ \<Rightarrow> byte"
    let ?S = "sum_list (map (\<lambda>a. ucast (f a)) ss) :: 64 word"
    have "uint (?S div word_of_int count) = sum_list (map (\<lambda>a. uint (f a)) ss) div count"
      by (simp only: uint_div n uint_sum_list_ucast [OF len])
    also have "\<dots> = mean (map f ss)"
      by (simp add: mean_def assms(3) comp_def)
    finally show "(ucast (?S div word_of_int count) :: byte) = word_of_int (mean (map f ss))"
      by (simp only: ucast_eq)
  qed
  show ?thesis
    using nz q [of fst] q [of "\<lambda>p. fst (snd p)"] q [of "\<lambda>p. snd (snd p)"]
    by (simp add: average_of_def Let_def comp_def)
qed

subsection \<open>What the average, minimum and maximum reducers return\<close>

lemma row_samples_eq: "row_samples row width = samples_at row (\<lambda>x. x * 3) (nat width)"
  by (simp add: row_samples_def samples_at_def nat_mult_distrib nat_add_distrib mult.commute)

lemma col_samples_eq:
  "col_samples buf x width height = samples_at buf (\<lambda>y. (y * width + x) * 3) (nat height)"
  by (simp add: col_samples_def samples_at_def)

lemma row_offsets_in_range:
  assumes "3 * width \<le> int (length row)" and "k < nat width"
  shows "0 \<le> int k * 3 \<and> int k * 3 + 2 < int (length row)"
  using assms by auto

lemma col_offsets_in_range:
  assumes "0 \<le> x" and "x < width" and "3 * (width * height) \<le> int (length buf)"
    and "k < nat height"
  shows "0 \<le> (int k * width + x) * 3 \<and> (int k * width + x) * 3 + 2 < int (length buf)"
proof -
  have k: "int k + 1 \<le> height" using assms(4) by auto
  have w: "0 < width" using assms(1,2) by simp
  have "(int k + 1) * width \<le> height * width"
    using k w by (simp add: mult_right_mono)
  then have "(int k * width + x + 1) * 3 \<le> 3 * (width * height)"
    using assms(2) by (simp add: algebra_simps)
  moreover have "0 \<le> int k * width" using w by simp
  ultimately show ?thesis using assms(1,3) by auto
qed

lemma AverageColor_mean:
  assumes "1 \<le> width" and "3 * width \<le> int (length row)" and "255 * width < 2 ^ 64"
  shows "AverageColor row width =
     Inr \<lparr>R = word_of_int (mean (reds (row_samples row width))),
          G = word_of_int (mean (greens (row_samples row width))),
          B = word_of_int (mean (blues (row_samples row width))), A = 255\<rparr>"
proof -
  have len: "int (length (row_samples row width)) = width"
    using assms(1) by (simp add: row_samples_def)
  show ?thesis
    unfolding AverageColor_def reds_def greens_def blues_def
    using sum_loop [of "nat width" "\<lambda>x. x * 3" row 0 0 0, OF row_offsets_in_range [OF assms(2)]]
      average_of_sums [OF assms(1,3) len]
    by (simp add: row_samples_eq)
qed

lemma AverageColorCol_mean:
  assumes "1 \<le> height" and "0 \<le> x" and "x < width"
    and "3 * (width * height) \<le> int (length buf)" and "255 * height < 2 ^ 64"
  shows "AverageColorCol buf x width height =
     Inr \<lparr>R = word_of_int (mean (reds (col_samples buf x width height))),
          G = word_of_int (mean (greens (col_samples buf x width height))),
          B = word_of_int (mean (blues (col_samples buf x width height))), A = 255\<rparr>"
proof -
  have len: "int (length (col_samples buf x width height)) = height"
    using assms(1) by (simp add: col_samples_def)
  show ?thesis
    unfolding AverageColorCol_def reds_def greens_def blues_def
    using sum_loop [of "nat height" "\<lambda>y. (y * width + x) * 3" buf 0 0 0,
        OF col_offsets_in_range [OF assms(2,3,4)]]
      average_of_sums [OF assms(1,5) len]
    by (simp add: col_samples_eq)
qed

lemma MinColor_Min:
  assumes "1 \<le> width" and "3 * width \<le> int (length row)"
  shows "MinColor row width =
     Inr \<lparr>R = Min (set (reds (row_samples row width))),
          G = Min (set (greens (row_samples row width))),
          B = Min (set (blues (row_samples row width))), A = 255\<rparr>"
proof -
  have ne: "row_samples row width \<noteq> []"
    using assms(1) by (simp add: row_samples_def)
  show ?thesis
    unfolding MinColor_def reds_def greens_def blues_def
    using min_loop [of "nat width" "\<lambda>x. x * 3" row 255 255 255, OF row_offsets_in_range [OF assms(2)]] ne
    by (simp add: row_samples_eq fold_min_top)
qed

lemma MaxColor_Max:
  assumes "1 \<le> width" and "3 * width \<le> int (length row)"
  shows "MaxColor row width =
     Inr \<lparr>R = Max (set (reds (row_samples row width))),
          G = Max (set (greens (row_samples row width))),
          B = Max (set (blues (row_samples row width))), A = 255\<rparr>"
proof -
  have ne: "row_samples row width \<noteq> []"
    using assms(1) by (simp add: row_samples_def)
  show ?thesis
    unfolding MaxColor_def reds_def greens_def blues_def
    using max_loop [of "nat width" "\<lambda>x. x * 3" row 0 0 0, OF row_offsets_in_range [OF assms(2)]] ne
    by (simp add: row_samples_eq fold_max_bot)
qed

lemma MinColorCol_Min:
  assumes "1 \<le> height" and "0 \<le> x" and "x < width"
    and "3 * (width * height) \<le> int (length buf)"
  shows "MinColorCol buf x width height =
     Inr \<lparr>R = Min (set (reds (col_samples buf x width height))),
          G = Min (set (greens (col_samples buf x width height))),
          B = Min (set (blues (col_samples buf x width height))), A = 255\<rparr>"
proof -
  have ne: "col_samples buf x width height \<noteq> []"
    using assms(1) by (simp add: col_samples_def)
  show ?thesis
    unfolding MinColorCol_def reds_def greens_def blues_def
    using min_loop [of "nat height" "\<lambda>y. (y * width + x) * 3" buf 255 255 255,
        OF col_offsets_in_range [OF assms(2,3,4)]] ne
    by (simp add: col_samples_eq fold_min_top)
qed

lemma MaxColorCol_Max:
  assumes "1 \<le> height" and "0 \<le> x" and "x < width"
    and "3 * (width * height) \<le> int (length buf)"
  shows "MaxColorCol buf x width height =
     Inr \<lparr>R = Max (set (reds (col_samples buf x width height))),
          G = Max (set (greens (col_samples buf x width height))),
          B = Max (set (blues (col_samples buf x width height))), A = 255\<rparr>"
proof -
  have ne: "col_samples buf x width height \<noteq> []"
    using assms(1) by (simp add: col_samples_def)
  show ?thesis
    unfolding MaxColorCol_def reds_def greens_def blues_def
    using max_loop [of "nat height" "\<lambda>y. (y * width + x) * 3" buf 0 0 0,
        OF col_offsets_in_range [OF assms(2,3,4)]] ne
    by (simp add: col_samples_eq fold_max_bot)
qed

subsection \<open>The most common colour\<close>

lemma for_loop_invariant:
  assumes "P 0 s0"
    and "\<And>x s. x < n \<Longrightarrow> P x s \<Longrightarrow> \<exists>s'. body (int x) s = Inr s' \<and> P (Suc x) s'"
  shows "\<exists>s'. for_loop [0..<n] body s0 = Inr s' \<and> P n s'"
  using assms(2)
proof (induction n)
  case 0
  then show ?case using assms(1) by simp
next
  case (Suc n)
  then obtain s1 where s1: "for_loop [0..<n] body s0 = Inr s1" "P n s1"
    by (metis less_Suc_eq)
  from Suc.prems [of n s1] s1 obtain s2 where "body (int n) s1 = Inr s2" "P (Suc n) s2"
    by auto
  with s1 show ?case
    by (simp add: for_loop_append)
qed

lemma unpack_pack: "unpack (pack (r, g, b)) = \<lparr>R = r, G = g, B = b, A = 255\<rparr>"
proof -
  have m: "(0xFF :: 32 word) = mask 8"
    by (simp add: mask_eq_exp_minus_1)
  have r: "ucast (drop_bit 16 (push_bit 16 (ucast r) OR push_bit 8 (ucast g) OR (ucast b :: 32 word)) AND mask 8) = r"
    by (rule bit_word_eqI) (auto simp: bit_simps dest: bit_imp_le_length)
  have g: "ucast (drop_bit 8 (push_bit 16 (ucast r) OR push_bit 8 (ucast g) OR (ucast b :: 32 word)) AND mask 8) = g"
    by (rule bit_word_eqI) (auto simp: bit_simps dest: bit_imp_le_length)
  have b: "ucast ((push_bit 16 (ucast r) OR push_bit 8 (ucast g) OR (ucast b :: 32 word)) AND mask 8) = b"
    by (rule bit_word_eqI) (auto simp: bit_simps dest: bit_imp_le_length)
  show ?thesis
    by (simp only: pack_def unpack_def prod.case m r g b)
qed

lemma incr_map_of:
  "map_of (incr m k) k' =
     (if k' = k then Some ((case map_of m k of None \<Rightarrow> 0 | Some c \<Rightarrow> c) + 1) else map_of m k')"
  by (simp add: incr_def update_conv)

lemma incr_distinct: "distinct (map fst m) \<Longrightarrow> distinct (map fst (incr m k))"
  by (simp add: incr_def distinct_update)

lemma counts_of_incr:
  assumes "counts_of ks m"
  shows "counts_of (ks @ [k]) (incr m k)"
proof -
  have d: "distinct (map fst m)"
    and c: "\<And>k'. map_of m k' = (if k' \<in> set ks then Some (int (count_list ks k')) else None)"
    using assms by (simp_all add: counts_of_def)
  have "map_of (incr m k) k' =
        (if k' \<in> set (ks @ [k]) then Some (int (count_list (ks @ [k]) k')) else None)" for k'
  proof (cases "k' = k")
    case True
    then show ?thesis
      by (simp add: incr_map_of c)
  next
    case False
    then show ?thesis
      by (simp add: incr_map_of c)
  qed
  with incr_distinct [OF d] show ?thesis
    unfolding counts_of_def by blast
qed

lemma count_loop:
  assumes "\<And>k. k < n \<Longrightarrow> 0 \<le> off (int k) \<and> off (int k) + 2 < int (length buf)"
  shows "\<exists>m. for_loop [0..<n] (\<lambda>x. count_step buf (off x)) [] = Inr m \<and>
             counts_of (map pack (samples_at buf off n)) m"
proof (rule for_loop_invariant [where P = "\<lambda>x m. counts_of (map pack (samples_at buf off x)) m"])
  show "counts_of (map pack (samples_at buf off 0)) []"
    by (simp add: counts_of_def samples_at_def)
next
  fix x m
  assume "x < n" and inv: "counts_of (map pack (samples_at buf off x)) m"
  then have "0 \<le> off (int x) \<and> off (int x) + 2 < int (length buf)"
    using assms by blast
  then show "\<exists>s'. count_step buf (off (int x)) m = Inr s' \<and>
                 counts_of (map pack (samples_at buf off (Suc x))) s'"
    using counts_of_incr [OF inv]
    by (simp add: count_step_def read3_in_range samples_at_Suc)
qed

lemma range_max_fold:
  assumes "fold (\<lambda>(col, count) (maxCount, mostCommon).
                   if count > maxCount then (count, col) else (maxCount, mostCommon))
             xs (mc0 :: int, k0 :: 32 word) = (mc, k)"
  shows "mc0 \<le> mc \<and> (\<forall>(k', c') \<in> set xs. c' \<le> mc) \<and> ((k, mc) \<in> set xs \<or> (mc, k) = (mc0, k0))"
  using assms
proof (induction xs arbitrary: mc0 k0)
  case Nil
  then show ?case by simp
next
  case (Cons x xs)
  obtain col count where x: "x = (col, count)" by (cases x)
  show ?case
  proof (cases "count > mc0")
    case True
    with Cons.prems x have "fold (\<lambda>(col, count) (maxCount, mostCommon).
                   if count > maxCount then (count, col) else (maxCount, mostCommon))
             xs (count, col) = (mc, k)" by simp
    from Cons.IH [OF this] True x show ?thesis by auto
  next
    case False
    with Cons.prems x have "fold (\<lambda>(col, count) (maxCount, mostCommon).
                   if count > maxCount then (count, col) else (maxCount, mostCommon))
             xs (mc0, k0) = (mc, k)" by simp
    from Cons.IH [OF this] False x show ?thesis by auto
  qed
qed

lemma range_max_most_frequent:
  assumes c: "counts_of ks m" and v: "set visited = set m" and ne: "ks \<noteq> []"
  shows "most_frequent ks (snd (range_max visited))"
proof -
  obtain mc k where r: "range_max visited = (mc, k)" by (cases "range_max visited")
  have d: "distinct (map fst m)"
    and look: "\<And>k. map_of m k = (if k \<in> set ks then Some (int (count_list ks k)) else None)"
    using c by (simp_all add: counts_of_def)
  have entries: "(k', c') \<in> set m \<longleftrightarrow> k' \<in> set ks \<and> c' = int (count_list ks k')" for k' c'
    using map_of_eq_Some_iff [OF d, of k' c'] look [of k'] by (auto split: if_splits)
  from r have f: "0 \<le> mc" "\<forall>(k', c') \<in> set visited. c' \<le> mc"
    "(k, mc) \<in> set visited \<or> (mc, k) = (0, 0)"
    using range_max_fold [of visited 0 0 mc k] by (simp_all add: range_max_def)
  obtain k1 where k1: "k1 \<in> set ks" using ne by (cases ks) auto
  then have "(k1, int (count_list ks k1)) \<in> set visited"
    using entries v by simp
  moreover have "0 < count_list ks k1"
    using k1 count_list_0_iff [of ks k1] by auto
  ultimately have "0 < mc" using f(2) by fastforce
  with f(3) have "(k, mc) \<in> set m" using v by auto
  then have k: "k \<in> set ks" "mc = int (count_list ks k)"
    using entries by simp_all
  have "count_list ks k' \<le> count_list ks k" if "k' \<in> set ks" for k'
  proof -
    from that have "(k', int (count_list ks k')) \<in> set visited"
      using entries v by simp
    with f(2) k(2) show ?thesis by fastforce
  qed
  with k(1) r show ?thesis by (simp add: most_frequent_def)
qed

lemma key_of_unpack_pack: "key_of (unpack (pack (r, g, b))) = pack (r, g, b)"
  by (simp add: unpack_pack key_of_def)

lemma key_of_unpack_key: "k \<in> set (map pack ss) \<Longrightarrow> key_of (unpack k) = k"
  using key_of_unpack_pack by auto

lemma MostCommonColor_most_frequent:
  assumes "legal_order iter" and "1 \<le> width" and "3 * width \<le> int (length row)"
  shows "\<exists>k. MostCommonColor iter row width = Inr (unpack k) \<and> key_of (unpack k) = k \<and>
             most_frequent (row_keys row width) k"
proof -
  obtain m where m: "for_loop [0..<nat width] (\<lambda>x. count_step row (x * 3)) [] = Inr m"
      "counts_of (row_keys row width) m"
    using count_loop [of "nat width" "\<lambda>x. x * 3" row, OF row_offsets_in_range [OF assms(3)]]
    by (auto simp: row_keys_def row_samples_eq)
  have ne: "row_keys row width \<noteq> []"
    using assms(2) by (simp add: row_keys_def row_samples_def)
  have v: "set (iter m) = set m"
    using assms(1) by (simp add: legal_order_def)
  let ?k = "snd (range_max (iter m))"
  have mf: "most_frequent (row_keys row width) ?k"
    by (rule range_max_most_frequent [OF m(2) v ne])
  then have "?k \<in> set (map pack (row_samples row width))"
    by (simp add: most_frequent_def row_keys_def)
  then have "key_of (unpack ?k) = ?k"
    by (rule key_of_unpack_key)
  with mf m(1) show ?thesis
    by (auto simp: MostCommonColor_def)
qed

lemma MostCommonColor_returns:
  assumes "3 * width \<le> int (length row)"
  shows "\<exists>c. MostCommonColor iter row width = Inr c"
proof -
  obtain m where "for_loop [0..<nat width] (\<lambda>x. count_step row (x * 3)) [] = Inr m"
    using count_loop [of "nat width" "\<lambda>x. x * 3" row, OF row_offsets_in_range [OF assms]]
    by auto
  then show ?thesis
    by (simp add: MostCommonColor_def)
qed

section \<open>The reducers\<close>

lemma uint_byte_of_mean: "uint (word_of_int (mean xs) :: byte) = mean xs"
  using mean_bounds [of xs] by (simp add: uint_word_of_int mod_pos_pos_trivial)

text \<open>
  C3: for every width of at least 1 and every row buffer of at least three bytes per pixel,
  \<^verbatim>\<open>AverageColor\<close> returns for each channel the mean of that channel over the row's pixels,
  truncated, a value between 0 and 255.  The third hypothesis says that the \<^verbatim>\<open>uint64\<close> sums
  cannot wrap; it holds for every buffer that fits an address space.  The 2-by-2 frame of
  the specification reduces to (127, 127, 127) in row 0 and to (15, 15, 15) in row 1.
\<close>

theorem AverageColor_truncated_mean:
  "(1 \<le> width \<and> 3 * width \<le> int (length row) \<and> 255 * width < 2 ^ 64 \<longrightarrow>
      (\<exists>c. AverageColor row width = Inr c \<and>
           uint (R c) = mean (reds (row_samples row width)) \<and>
           uint (G c) = mean (greens (row_samples row width)) \<and>
           uint (B c) = mean (blues (row_samples row width)) \<and>
           0 \<le> uint (R c) \<and> uint (R c) \<le> 255 \<and> 0 \<le> uint (G c) \<and> uint (G c) \<le> 255 \<and>
           0 \<le> uint (B c) \<and> uint (B c) \<le> 255)) \<and>
   frame_row [0, 0, 0, 255, 255, 255, 10, 20, 30, 20, 10, 0] 0 2 = Inr [0, 0, 0, 255, 255, 255] \<and>
   AverageColor [0, 0, 0, 255, 255, 255] 2 = Inr \<lparr>R = 127, G = 127, B = 127, A = 255\<rparr> \<and>
   frame_row [0, 0, 0, 255, 255, 255, 10, 20, 30, 20, 10, 0] 1 2 = Inr [10, 20, 30, 20, 10, 0] \<and>
   AverageColor [10, 20, 30, 20, 10, 0] 2 = Inr \<lparr>R = 15, G = 15, B = 15, A = 255\<rparr>"
proof -
  have general: "\<exists>c. AverageColor row width = Inr c \<and>
           uint (R c) = mean (reds (row_samples row width)) \<and>
           uint (G c) = mean (greens (row_samples row width)) \<and>
           uint (B c) = mean (blues (row_samples row width)) \<and>
           0 \<le> uint (R c) \<and> uint (R c) \<le> 255 \<and> 0 \<le> uint (G c) \<and> uint (G c) \<le> 255 \<and>
           0 \<le> uint (B c) \<and> uint (B c) \<le> 255"
    if "1 \<le> width" "3 * width \<le> int (length row)" "255 * width < 2 ^ 64"
    using AverageColor_mean [OF that] mean_bounds [of "reds (row_samples row width)"]
      mean_bounds [of "greens (row_samples row width)"] mean_bounds [of "blues (row_samples row width)"]
    by (simp add: uint_byte_of_mean)
  have r0: "frame_row [0, 0, 0, 255, 255, 255, 10, 20, 30, 20, 10, 0] 0 2 = Inr [0, 0, 0, 255, 255, 255]"
    by (simp add: frame_row_def slice_def int64_def)
  have r1: "frame_row [0, 0, 0, 255, 255, 255, 10, 20, 30, 20, 10, 0] 1 2 = Inr [10, 20, 30, 20, 10, 0]"
    by (simp add: frame_row_def slice_def int64_def)
  have a0: "AverageColor [0, 0, 0, 255, 255, 255] 2 = Inr \<lparr>R = 127, G = 127, B = 127, A = 255\<rparr>"
    by (simp add: AverageColor_def sum_step_def average_of_def read3_def byte_at_def upt_rec)
  have a1: "AverageColor [10, 20, 30, 20, 10, 0] 2 = Inr \<lparr>R = 15, G = 15, B = 15, A = 255\<rparr>"
    by (simp add: AverageColor_def sum_step_def average_of_def read3_def byte_at_def upt_rec)
  from general r0 r1 a0 a1 show ?thesis by blast
qed

theorem AverageColor_truncated_mean_witness:
  "1 \<le> (2 :: int) \<and> 3 * 2 \<le> int (length [10, 20, 30, 20, 11, 0 :: byte]) \<and> (255 * 2 :: int) < 2 ^ 64 \<and>
   (\<exists>c. AverageColor [10, 20, 30, 20, 11, 0] 2 = Inr c \<and>
        uint (R c) = 15 \<and> uint (G c) = 15 \<and> uint (B c) = 15)"
  using AverageColor_truncated_mean [of 2 "[10, 20, 30, 20, 11, 0]"]
  by (auto simp: mean_def reds_def greens_def blues_def row_samples_def upt_rec)

text \<open>
  C9: for a row of \<open>width \<ge> 1\<close> pixels \<^verbatim>\<open>MinColor\<close> returns the minimum of each channel
  over the row's pixels and \<^verbatim>\<open>MaxColor\<close> the maximum; for a column \<open>x\<close> of a frame of
  \<open>height \<ge> 1\<close> rows, \<^verbatim>\<open>MinColorCol\<close> and \<^verbatim>\<open>MaxColorCol\<close> return the same over the
  \<open>height\<close> pixels at the byte offsets \<open>(y * width + x) * 3\<close>.
\<close>

theorem min_max_reducers:
  "(1 \<le> width \<and> 3 * width \<le> int (length row) \<longrightarrow>
      MinColor row width =
        Inr \<lparr>R = Min (set (reds (row_samples row width))),
             G = Min (set (greens (row_samples row width))),
             B = Min (set (blues (row_samples row width))), A = 255\<rparr> \<and>
      MaxColor row width =
        Inr \<lparr>R = Max (set (reds (row_samples row width))),
             G = Max (set (greens (row_samples row width))),
             B = Max (set (blues (row_samples row width))), A = 255\<rparr>) \<and>
   (1 \<le> h \<and> 0 \<le> x \<and> x < w \<and> 3 * (w * h) \<le> int (length buf) \<longrightarrow>
      MinColorCol buf x w h =
        Inr \<lparr>R = Min (set (reds (col_samples buf x w h))),
             G = Min (set (greens (col_samples buf x w h))),
             B = Min (set (blues (col_samples buf x w h))), A = 255\<rparr> \<and>
      MaxColorCol buf x w h =
        Inr \<lparr>R = Max (set (reds (col_samples buf x w h))),
             G = Max (set (greens (col_samples buf x w h))),
             B = Max (set (blues (col_samples buf x w h))), A = 255\<rparr>)"
  using MinColor_Min [of width row] MaxColor_Max [of width row]
    MinColorCol_Min [of h x w buf] MaxColorCol_Max [of h x w buf]
  by blast

theorem min_max_reducers_witness:
  "1 \<le> (2 :: int) \<and> 3 * 2 \<le> int (length [9, 2, 3, 4, 5, 1 :: byte]) \<and>
   MinColor [9, 2, 3, 4, 5, 1] 2 = Inr \<lparr>R = 4, G = 2, B = 1, A = 255\<rparr> \<and>
   MaxColor [9, 2, 3, 4, 5, 1] 2 = Inr \<lparr>R = 9, G = 5, B = 3, A = 255\<rparr> \<and>
   1 \<le> (2 :: int) \<and> 0 \<le> (1 :: int) \<and> (1 :: int) < 2 \<and>
   3 * (2 * 2) \<le> int (length [0, 0, 0, 9, 2, 3, 0, 0, 0, 4, 5, 1 :: byte]) \<and>
   MinColorCol [0, 0, 0, 9, 2, 3, 0, 0, 0, 4, 5, 1] 1 2 2 = Inr \<lparr>R = 4, G = 2, B = 1, A = 255\<rparr> \<and>
   MaxColorCol [0, 0, 0, 9, 2, 3, 0, 0, 0, 4, 5, 1] 1 2 2 = Inr \<lparr>R = 9, G = 5, B = 3, A = 255\<rparr>"
  using min_max_reducers [of 2 "[9, 2, 3, 4, 5, 1]" 2 1 2 "[0, 0, 0, 9, 2, 3, 0, 0, 0, 4, 5, 1]"]
  by (simp add: reds_def greens_def blues_def row_samples_def col_samples_def upt_rec)

text \<open>
  C10: when \<open>width \<ge> 1\<close> and the row holds at least \<open>3 * width\<close> bytes, none of the four
  row reducers panics: every index is in range and the divisor of \<^verbatim>\<open>AverageColor\<close> is not
  zero (\<open>width < 2 ^ 63\<close> is the range of Go's \<^verbatim>\<open>int\<close>).  The bound \<open>width \<ge> 1\<close> is needed:
  at width 0 \<^verbatim>\<open>AverageColor\<close> panics with a division by zero, whatever the row.
\<close>

theorem row_reducers_safe:
  "(1 \<le> width \<and> width < 2 ^ 63 \<and> 3 * width \<le> int (length row) \<longrightarrow>
      (\<exists>c. AverageColor row width = Inr c) \<and> (\<exists>c. MinColor row width = Inr c) \<and>
      (\<exists>c. MaxColor row width = Inr c) \<and> (\<exists>c. MostCommonColor iter row width = Inr c)) \<and>
   AverageColor row0 0 = Inl DivideByZero"
proof -
  have avg: "\<exists>c. AverageColor row width = Inr c"
    if w1: "1 \<le> width" and w2: "width < 2 ^ 63" and w3: "3 * width \<le> int (length row)"
  proof -
    have n: "uint (word_of_int width :: 64 word) = width"
      using w1 w2 by (simp add: uint_word_of_int mod_pos_pos_trivial)
    then have nz: "(word_of_int width :: 64 word) \<noteq> 0"
      using w1 by auto
    obtain totals where "for_loop [0..<nat width] (\<lambda>x. sum_step row (x * 3)) (0, 0, 0) = Inr totals"
      using sum_loop [of "nat width" "\<lambda>x. x * 3" row 0 0 0, OF row_offsets_in_range [OF w3]]
      by simp
    with nz show ?thesis
      by (cases totals) (simp add: AverageColor_def average_of_def Let_def)
  qed
  have zero: "AverageColor row0 0 = Inl DivideByZero"
    by (simp add: AverageColor_def average_of_def)
  from avg zero MinColor_Min [of width row] MaxColor_Max [of width row]
    MostCommonColor_returns [of width row iter]
  show ?thesis by blast
qed

theorem row_reducers_safe_witness:
  "1 \<le> (1 :: int) \<and> (1 :: int) < 2 ^ 63 \<and> 3 * 1 \<le> int (length [7, 8, 9 :: byte]) \<and>
   (\<exists>c. AverageColor [7, 8, 9] 1 = Inr c) \<and> (\<exists>c. MinColor [7, 8, 9] 1 = Inr c) \<and>
   (\<exists>c. MaxColor [7, 8, 9] 1 = Inr c) \<and> (\<exists>c. MostCommonColor rev [7, 8, 9] 1 = Inr c) \<and>
   AverageColor [] 0 = Inl DivideByZero"
  using row_reducers_safe [of 1 "[7, 8, 9]" rev "[]"]
  by simp

text \<open>
  C5, as the code has it: whatever order the run time chooses for the \<^verbatim>\<open>range\<close> over the
  map, \<^verbatim>\<open>MostCommonColor\<close> returns a colour whose packed key occurs most often in the row;
  and when a single key occurs most often, any two orders give the same colour.  Among
  several keys that occur equally often the order of the map iteration decides.
\<close>

theorem MostCommonColor_max_count:
  "legal_order iter1 \<and> legal_order iter2 \<and> 1 \<le> width \<and> 3 * width \<le> int (length row) \<longrightarrow>
     (\<exists>c. MostCommonColor iter1 row width = Inr c \<and> most_frequent (row_keys row width) (key_of c)) \<and>
     ((\<exists>!k. most_frequent (row_keys row width) k) \<longrightarrow>
        MostCommonColor iter1 row width = MostCommonColor iter2 row width)"
proof (intro impI, elim conjE)
  assume l1: "legal_order iter1" and l2: "legal_order iter2"
    and w: "1 \<le> width" "3 * width \<le> int (length row)"
  obtain k1 where k1: "MostCommonColor iter1 row width = Inr (unpack k1)"
      "key_of (unpack k1) = k1" "most_frequent (row_keys row width) k1"
    using MostCommonColor_most_frequent [OF l1 w] by blast
  obtain k2 where k2: "MostCommonColor iter2 row width = Inr (unpack k2)"
      "key_of (unpack k2) = k2" "most_frequent (row_keys row width) k2"
    using MostCommonColor_most_frequent [OF l2 w] by blast
  have "\<exists>c. MostCommonColor iter1 row width = Inr c \<and> most_frequent (row_keys row width) (key_of c)"
    using k1 by auto
  moreover have "MostCommonColor iter1 row width = MostCommonColor iter2 row width"
    if "\<exists>!k. most_frequent (row_keys row width) k"
  proof -
    from that k1(3) k2(3) have "k1 = k2" by blast
    with k1(1) k2(1) show ?thesis by simp
  qed
  ultimately show "(\<exists>c. MostCommonColor iter1 row width = Inr c \<and>
        most_frequent (row_keys row width) (key_of c)) \<and>
     ((\<exists>!k. most_frequent (row_keys row width) k) \<longrightarrow>
        MostCommonColor iter1 row width = MostCommonColor iter2 row width)"
    by blast
qed

subsection \<open>Two iteration orders\<close>

lemma legal_order_id: "legal_order id"
  by (simp add: legal_order_def)

lemma legal_order_rev: "legal_order rev"
  by (simp add: legal_order_def)

lemma most_common_example:
  "most_frequent (row_keys [5, 5, 5, 1, 1, 1, 5, 5, 5] 3) k \<longleftrightarrow> k = 328965"
  by (auto simp: most_frequent_def row_keys_def row_samples_def pack_def upt_rec)

theorem MostCommonColor_max_count_witness:
  "legal_order id \<and> legal_order rev \<and> 1 \<le> (3 :: int) \<and>
   3 * 3 \<le> int (length [5, 5, 5, 1, 1, 1, 5, 5, 5 :: byte]) \<and>
   (\<exists>!k. most_frequent (row_keys [5, 5, 5, 1, 1, 1, 5, 5, 5] 3) k) \<and>
   (\<exists>c. MostCommonColor id [5, 5, 5, 1, 1, 1, 5, 5, 5] 3 = Inr c \<and>
        most_frequent (row_keys [5, 5, 5, 1, 1, 1, 5, 5, 5] 3) (key_of c)) \<and>
   MostCommonColor id [5, 5, 5, 1, 1, 1, 5, 5, 5] 3 = MostCommonColor rev [5, 5, 5, 1, 1, 1, 5, 5, 5] 3"
proof -
  have hyp: "legal_order id \<and> legal_order rev \<and> 1 \<le> (3 :: int) \<and>
      3 * 3 \<le> int (length [5, 5, 5, 1, 1, 1, 5, 5, 5 :: byte])"
    using legal_order_id legal_order_rev by simp
  have uniq: "\<exists>!k. most_frequent (row_keys [5, 5, 5, 1, 1, 1, 5, 5, 5] 3) k"
    by (simp add: most_common_example)
  from MostCommonColor_max_count [of id rev 3 "[5, 5, 5, 1, 1, 1, 5, 5, 5]"] hyp uniq
  show ?thesis by blast
qed

text \<open>
  C5 as stated fails: on a row of two pixels of different colours, both keys occur once, and
  two legal iteration orders of the map return different colours.
\<close>

theorem MostCommonColor_order_counterexample:
  "legal_order id \<and> legal_order rev \<and>
   MostCommonColor id [0, 0, 0, 1, 1, 1] 2 = Inr \<lparr>R = 0, G = 0, B = 0, A = 255\<rparr> \<and>
   MostCommonColor rev [0, 0, 0, 1, 1, 1] 2 = Inr \<lparr>R = 1, G = 1, B = 1, A = 255\<rparr>"
  by (simp add: legal_order_def MostCommonColor_def count_step_def read3_def byte_at_def upt_rec
      incr_def pack_def unpack_def range_max_def)

section \<open>The capacity of the canvas\<close>

lemma maxFrames_nonneg:
  "0 \<le> n \<Longrightarrow> n + n div 10 + 10 < 2 ^ 63 \<Longrightarrow> maxFrames n = n + n div 10 + 10"
proof -
  assume n: "0 \<le> n" "n + n div 10 + 10 < 2 ^ 63"
  have s: "n sdiv 10 = n div 10"
    using n(1) by (simp add: signed_divide_int_def sgn_if)
  have "0 \<le> n div 10"
    using n(1) by (simp add: pos_imp_zdiv_nonneg_iff)
  then have "- (2 ^ 63) \<le> n + n div 10 + 10"
    using n(1) by simp
  then show ?thesis
    unfolding maxFrames_def s using n(2) by (rule int64_id)
qed

lemma maxFrames_wrap:
  assumes "0 \<le> n" and "2 ^ 63 \<le> n + n div 10 + 10" and "n < 2 ^ 63"
  shows "maxFrames n = n + n div 10 + 10 - 2 ^ 64"
proof -
  have s: "n sdiv 10 = n div 10"
    using assms(1) by (simp add: signed_divide_int_def sgn_if)
  have "n div 10 \<le> n"
    using assms(1) by presburger
  then have "n + n div 10 + 10 < 2 ^ 64"
    using assms(3) by simp
  with assms(2) show ?thesis
    unfolding maxFrames_def s by (rule int64_wrap)
qed

lemma maxFrames_range: "maxFrames fc < 2 ^ 63"
  using int64_range [of "fc + fc sdiv 10 + 10"] by (simp add: maxFrames_def)

lemma capacityLines_unique:
  assumes "10 * (z - 1) < 11 * n" and "11 * n \<le> 10 * z"
  shows "capacityLines n = z + 10"
proof -
  have x: "of_int n * (11 / 10 :: rat) = of_int (11 * n) / 10"
    by simp
  have "(of_int (10 * (z - 1)) :: rat) < of_int (11 * n)"
    using assms(1) by (simp only: of_int_less_iff)
  then have lo: "(of_int z :: rat) - 1 < of_int (11 * n) / 10"
    by (simp add: field_simps)
  have "(of_int (11 * n) :: rat) \<le> of_int (10 * z)"
    using assms(2) by (simp only: of_int_le_iff)
  then have hi: "of_int (11 * n) / 10 \<le> (of_int z :: rat)"
    by (simp add: field_simps)
  have "\<lceil>of_int (11 * n) / (10 :: rat)\<rceil> = z"
    using lo hi by (rule ceiling_unique)
  then show ?thesis
    by (simp only: capacityLines_def x)
qed

lemma capacityLines_div:
  "capacityLines n = n + n div 10 + (if 10 dvd n then 0 else 1) + 10"
proof -
  define q where "q = n div 10"
  define r where "r = n mod 10"
  have n: "n = 10 * q + r" "0 \<le> r" "r < 10"
    by (simp_all add: q_def r_def)
  have d: "10 dvd n \<longleftrightarrow> r = 0"
    by (simp add: r_def dvd_eq_mod_eq_0)
  show ?thesis
  proof (cases "r = 0")
    case True
    have "capacityLines n = (n + q) + 10"
      by (rule capacityLines_unique) (use n True in simp_all)
    with True d show ?thesis by (simp add: q_def)
  next
    case False
    have "capacityLines n = (n + q + 1) + 10"
      by (rule capacityLines_unique) (use n False in simp_all)
    with False d show ?thesis by (simp add: q_def)
  qed
qed

text \<open>
  C4, as the code has it: for every estimated frame count \<open>n\<close> from 1 to 8384883669867977998
  the capacity is \<open>n + n div 10 + 10\<close> with the integer division of the code.  That is
  \<open>ceil(n * 1.1) + 10\<close> exactly when \<open>n\<close> is a multiple of 10, and one line less
  otherwise; \<open>n = 10\<close> gives 21.  For the larger values of an \<^verbatim>\<open>int\<close> the sum wraps at 64
  bits and the capacity is the negative number \<open>n + n div 10 + 10 - 2 ^ 64\<close>.
\<close>

theorem maxFrames_capacity:
  "(1 \<le> n \<and> n \<le> 8384883669867977998 \<longrightarrow>
      maxFrames n = n + n div 10 + 10 \<and>
      (10 dvd n \<longrightarrow> maxFrames n = capacityLines n) \<and>
      (\<not> 10 dvd n \<longrightarrow> maxFrames n = capacityLines n - 1)) \<and>
   (8384883669867977998 < n \<and> n < 2 ^ 63 \<longrightarrow>
      maxFrames n = n + n div 10 + 10 - 2 ^ 64 \<and> maxFrames n < 0) \<and>
   maxFrames 10 = 21"
proof -
  have small: "maxFrames n = n + n div 10 + 10" if "1 \<le> n" "n \<le> 8384883669867977998"
  proof -
    have "n div 10 \<le> 8384883669867977998 div 10"
      using that(2) by (rule zdiv_mono1) simp
    then have "n + n div 10 + 10 < 2 ^ 63"
      using that(2) by simp
    then show ?thesis
      using that(1) by (simp add: maxFrames_nonneg)
  qed
  have large: "maxFrames n = n + n div 10 + 10 - 2 ^ 64 \<and> maxFrames n < 0"
    if "8384883669867977998 < n" "n < 2 ^ 63"
  proof -
    have "8384883669867977999 div 10 \<le> n div 10"
      by (rule zdiv_mono1) (use that(1) in simp_all)
    then have lo: "2 ^ 63 \<le> n + n div 10 + 10"
      using that(1) by simp
    have eq: "maxFrames n = n + n div 10 + 10 - 2 ^ 64"
      by (rule maxFrames_wrap [OF _ lo that(2)]) (use that(1) in simp)
    have "n div 10 \<le> (2 ^ 63) div 10"
      by (rule zdiv_mono1) (use that(2) in simp_all)
    then have "n + n div 10 + 10 < 2 ^ 64"
      using that(2) by simp
    with eq show ?thesis
      by simp
  qed
  have c1: "1 \<le> n \<and> n \<le> 8384883669867977998 \<longrightarrow>
      maxFrames n = n + n div 10 + 10 \<and>
      (10 dvd n \<longrightarrow> maxFrames n = capacityLines n) \<and>
      (\<not> 10 dvd n \<longrightarrow> maxFrames n = capacityLines n - 1)"
    by (simp add: small capacityLines_div)
  have c2: "8384883669867977998 < n \<and> n < 2 ^ 63 \<longrightarrow>
      maxFrames n = n + n div 10 + 10 - 2 ^ 64 \<and> maxFrames n < 0"
    using large by blast
  have c3: "maxFrames 10 = 21"
    by (simp add: maxFrames_nonneg)
  from c1 c2 c3 show ?thesis
    by (intro conjI)
qed

theorem maxFrames_capacity_witness:
  "1 \<le> (20 :: int) \<and> (20 :: int) \<le> 8384883669867977998 \<and> 10 dvd (20 :: int) \<and>
   maxFrames 20 = 32 \<and> capacityLines 20 = 32 \<and>
   1 \<le> (7 :: int) \<and> (7 :: int) \<le> 8384883669867977998 \<and> \<not> 10 dvd (7 :: int) \<and>
   maxFrames 7 = 17 \<and> capacityLines 7 = 18 \<and>
   (8384883669867977998 :: int) < 9223372036854775807 \<and> (9223372036854775807 :: int) < 2 ^ 63 \<and>
   maxFrames 9223372036854775807 = - 8301034833169298219"
  using maxFrames_capacity [of 20] maxFrames_capacity [of 7]
    maxFrames_capacity [of 9223372036854775807]
  by simp

text \<open>C4 as stated fails at \<open>n = 1\<close>: the code allocates 11 lines, \<open>ceil(1.1) + 10\<close> is 12.\<close>

theorem maxFrames_capacity_counterexample:
  "maxFrames 1 = 11 \<and> capacityLines 1 = 12"
  by (simp add: maxFrames_nonneg capacityLines_div)

section \<open>The guard on the probed geometry\<close>

lemma stream_frames_zero_size:
  assumes "stream_frames r n reader img idx = Some y"
  shows "(\<forall>img idx. \<exists>img'. process_frame r [] img idx = Inr img') \<longrightarrow> n \<noteq> 0"
proof (rule stream_frames.raw_induct
    [where P = "\<lambda>r n reader img idx y.
                  (\<forall>img idx. \<exists>img'. process_frame r [] img idx = Inr img') \<longrightarrow> n \<noteq> 0",
     OF _ assms])
  fix loop r n reader img idx y
  assume IH: "\<And>r n reader img idx y. loop r n reader img idx = Some y \<Longrightarrow>
                (\<forall>img idx. \<exists>img'. process_frame r [] img idx = Inr img') \<longrightarrow> n \<noteq> 0"
    and step: "(case ReadFull reader n of
                  Filled frameBuf reader' \<Rightarrow>
                    (case process_frame r frameBuf img idx of
                       Inl e \<Rightarrow> Some (Inl (Panicked e))
                     | Inr dnaImage' \<Rightarrow> loop r n reader' dnaImage' (int64 (idx + 1)))
                | EOF \<Rightarrow> Some (Inr (img, idx))
                | ErrUnexpectedEOF \<Rightarrow> Some (Inr (img, idx))
                | OtherError \<Rightarrow> Some (Inl FailedToReadFrame)) = Some y"
  show "(\<forall>img idx. \<exists>img'. process_frame r [] img idx = Inr img') \<longrightarrow> n \<noteq> 0"
  proof (intro impI notI)
    assume ok: "\<forall>img idx. \<exists>img'. process_frame r [] img idx = Inr img'" and n: "n = 0"
    obtain img' where img': "process_frame r [] img idx = Inr img'"
      using ok by blast
    have rd: "ReadFull reader n = Filled [] reader"
      by (simp add: ReadFull_def n)
    from step have "loop r n reader img' (int64 (idx + 1)) = Some y"
      by (simp add: rd img')
    from IH [OF this] ok n show False
      by simp
  qed
qed

lemma canvas_of_one_frame:
  "NewRGBA (image_Rect 0 0 (maxFrames 1) 1) =
     Inr \<lparr>Rect = image_Rect 0 0 (maxFrames 1) 1, Pixels = (\<lambda>p. zero_rgba)\<rparr>"
  by (simp add: NewRGBA_def mul3NonNeg_def Dx_def Dy_def image_Rect_def maxFrames_nonneg
      int64_def maxAlloc_def)

text \<open>
  C8: the guard of \<^verbatim>\<open>Generate\<close> tests the frame count and the height, not the width.  A
  probe that reports width 0 passes it; the frame size is then 0 and every read succeeds
  without consuming a byte.  In the mode \<^verbatim>\<open>average\<close> the first row reduction divides by
  zero; in the mode \<^verbatim>\<open>min\<close> the frame loop never ends.  This holds whatever the decoder
  writes.
\<close>

theorem Generate_zero_width:
  "Generate order (Some \<lparr>Width = 0, Height = 1, FrameCount = 1\<rparr>) stdout deadline_exceeded
     ''average'' False = Some (Inl (Panicked DivideByZero)) \<and>
   Generate order (Some \<lparr>Width = 0, Height = 1, FrameCount = 1\<rparr>) stdout deadline_exceeded
     ''min'' False = None"
proof -
  let ?canvas = "\<lparr>Rect = image_Rect 0 0 (maxFrames 1) 1, Pixels = (\<lambda>p. zero_rgba)\<rparr>"
  let ?r = "\<lambda>m. \<lparr>run_iter = order, run_mode = m, run_vertical = False, run_width = 0,
             run_height = 1\<rparr>"
  have size: "int64 0 = 0" "\<not> maxAlloc < 0"
    by (simp_all add: int64_def maxAlloc_def)
  have "stream_frames (?r ''average'') 0 stdout ?canvas 0 = Some (Inl (Panicked DivideByZero))"
    by (subst stream_frames.simps)
      (simp add: ReadFull_def process_frame_def frame_row_def slice_def reduce_row_def
        AverageColor_def average_of_def int64_def)
  then have average: "Generate order (Some \<lparr>Width = 0, Height = 1, FrameCount = 1\<rparr>) stdout
      deadline_exceeded ''average'' False = Some (Inl (Panicked DivideByZero))"
    by (simp add: Generate_def canvas_of_one_frame size Let_def)
  have ok: "\<exists>img'. process_frame (?r ''min'') [] img idx = Inr img'" for img idx
    by (simp add: process_frame_def frame_row_def slice_def reduce_row_def MinColor_def int64_def)
  have "stream_frames (?r ''min'') 0 stdout ?canvas 0 = None"
  proof (rule ccontr)
    assume "stream_frames (?r ''min'') 0 stdout ?canvas 0 \<noteq> None"
    then obtain y where "stream_frames (?r ''min'') 0 stdout ?canvas 0 = Some y"
      by blast
    from stream_frames_zero_size [OF this] ok show False
      by simp
  qed
  then have loops: "Generate order (Some \<lparr>Width = 0, Height = 1, FrameCount = 1\<rparr>) stdout
      deadline_exceeded ''min'' False = None"
    by (simp add: Generate_def canvas_of_one_frame size Let_def)
  from average loops show ?thesis
    by (rule conjI)
qed

lemma Generate_guard:
  "FrameCount i = 0 \<or> Height i = 0 \<Longrightarrow>
   Generate order (Some i) stdout d m v = Some (Inl InvalidVideoProperties)"
  by (simp add: Generate_def)

section \<open>The frame loop\<close>

subsection \<open>No reducer panics on a complete frame\<close>

lemma word_of_int_64_neq_0: "1 \<le> n \<Longrightarrow> n < 2 ^ 63 \<Longrightarrow> (word_of_int n :: 64 word) \<noteq> 0"
proof -
  assume "1 \<le> n" "n < 2 ^ 63"
  then have "uint (word_of_int n :: 64 word) = n"
    by (simp add: uint_word_of_int mod_pos_pos_trivial)
  with \<open>1 \<le> n\<close> show ?thesis by auto
qed

lemma average_of_returns:
  "1 \<le> n \<Longrightarrow> n < 2 ^ 63 \<Longrightarrow> \<exists>c. average_of totals n = Inr c"
  using word_of_int_64_neq_0 [of n]
  by (cases totals) (simp add: average_of_def Let_def)

lemma AverageColor_returns:
  assumes "1 \<le> width" and "width < 2 ^ 63" and "3 * width \<le> int (length row)"
  shows "\<exists>c. AverageColor row width = Inr c"
  using sum_loop [of "nat width" "\<lambda>x. x * 3" row 0 0 0, OF row_offsets_in_range [OF assms(3)]]
    average_of_returns [OF assms(1,2)]
  by (simp add: AverageColor_def)

lemma AverageColorCol_returns:
  assumes "1 \<le> height" and "height < 2 ^ 63" and "0 \<le> x" and "x < width"
    and "3 * (width * height) \<le> int (length buf)"
  shows "\<exists>c. AverageColorCol buf x width height = Inr c"
  using sum_loop [of "nat height" "\<lambda>y. (y * width + x) * 3" buf 0 0 0,
      OF col_offsets_in_range [OF assms(3,4,5)]]
    average_of_returns [OF assms(1,2)]
  by (simp add: AverageColorCol_def)

lemma MostCommonColorCol_returns:
  assumes "0 \<le> x" and "x < width" and "3 * (width * height) \<le> int (length buf)"
  shows "\<exists>c. MostCommonColorCol order buf x width height = Inr c"
proof -
  obtain m where "for_loop [0..<nat height] (\<lambda>y. count_step buf ((y * width + x) * 3)) [] = Inr m"
    using count_loop [of "nat height" "\<lambda>y. (y * width + x) * 3" buf,
        OF col_offsets_in_range [OF assms]]
    by auto
  then show ?thesis
    by (simp add: MostCommonColorCol_def)
qed

lemma reduce_row_returns:
  assumes "1 \<le> width" and "width < 2 ^ 63" and "3 * width \<le> int (length row)"
  shows "\<exists>c. reduce_row order m row width = Inr c"
  using AverageColor_returns [OF assms] MinColor_Min [OF assms(1,3)] MaxColor_Max [OF assms(1,3)]
    MostCommonColor_returns [OF assms(3), of order]
  by (simp add: reduce_row_def)

lemma reduce_col_returns:
  assumes "1 \<le> height" and "height < 2 ^ 63" and "0 \<le> x" and "x < width"
    and "3 * (width * height) \<le> int (length buf)"
  shows "\<exists>c. reduce_col order m buf x width height = Inr c"
  using AverageColorCol_returns [OF assms] MinColorCol_Min [OF assms(1,3,4,5)]
    MaxColorCol_Max [OF assms(1,3,4,5)] MostCommonColorCol_returns [OF assms(3,4,5), of order]
  by (simp add: reduce_col_def)

lemma frame_row_in_range:
  assumes "0 \<le> y" and "y < height" and "0 \<le> width"
    and "int (length frameBuf) = width * height * 3" and "width * height * 3 < 2 ^ 63"
  shows "\<exists>row. frame_row frameBuf y width = Inr row \<and> int (length row) = 3 * width"
proof -
  have "(y + 1) * width \<le> height * width"
    using assms(2,3) by (simp add: mult_right_mono)
  then have hi: "y * width * 3 + width * 3 \<le> int (length frameBuf)"
    using assms(4) by (simp add: algebra_simps)
  have lo: "0 \<le> y * width * 3"
    using assms(1,3) by simp
  have w3: "0 \<le> width * 3"
    using assms(3) by simp
  have top: "y * width * 3 + width * 3 < 2 ^ 63"
    using hi assms(4,5) by linarith
  have start: "int64 (y * width * 3) = y * width * 3"
    by (rule int64_id) (use lo top w3 in linarith)+
  have stop: "int64 (y * width * 3 + width * 3) = y * width * 3 + width * 3"
    by (rule int64_id) (use lo top w3 in linarith)+
  have "nat (width * 3) \<le> length frameBuf - nat (y * width * 3)"
    using hi lo assms(3) by linarith
  then show ?thesis
    using hi lo assms(3) by (simp add: frame_row_def slice_def Let_def min_def start stop)
qed

lemma Rect_Set: "Rect (Set p x y c) = Rect p"
  by (simp add: Set_def)

lemma Set_outside: "\<not> In x y (Rect p) \<Longrightarrow> Set p x y c = p"
  by (simp add: Set_def)

lemma sides_below_product:
  assumes "1 \<le> (a :: int)" and "1 \<le> b" and "a * b * 3 \<le> c"
  shows "a \<le> c \<and> b \<le> c"
proof -
  have "a * 1 \<le> a * b"
    by (rule mult_left_mono) (use assms in simp_all)
  moreover have "1 * b \<le> a * b"
    by (rule mult_right_mono) (use assms in simp_all)
  moreover have "0 \<le> a * b"
    using assms by simp
  ultimately show ?thesis
    using assms(3) by simp
qed

text \<open>A run whose geometry is positive, on a complete frame that fits Go's \<^verbatim>\<open>int\<close>.\<close>

lemma process_frame_full_frame:
  assumes w: "1 \<le> run_width r" and h: "1 \<le> run_height r"
    and sz: "run_width r * run_height r * 3 < 2 ^ 63"
    and len: "int (length frameBuf) = run_width r * run_height r * 3"
  shows "\<exists>img'. process_frame r frameBuf img frameIdx = Inr img' \<and> Rect img' = Rect img \<and>
           (line_limit r (Rect img) \<le> frameIdx \<longrightarrow> img' = img)"
proof (cases "run_vertical r")
  case True
  have h2: "run_height r < 2 ^ 63"
    using sides_below_product [OF w h, of "run_width r * run_height r * 3"] sz by simp
  have "\<exists>img'. for_loop [0..<nat (run_width r)]
          (\<lambda>x img. case reduce_col (run_iter r frameIdx x) (run_mode r) frameBuf x (run_width r)
                             (run_height r) of
                      Inl e \<Rightarrow> Inl e
                    | Inr c \<Rightarrow> Inr (Set img x frameIdx c)) img = Inr img' \<and>
        (Rect img' = Rect img \<and> (line_limit r (Rect img) \<le> frameIdx \<longrightarrow> img' = img))"
  proof (rule for_loop_invariant
      [where P = "\<lambda>_ img'. Rect img' = Rect img \<and> (line_limit r (Rect img) \<le> frameIdx \<longrightarrow> img' = img)"])
    show "Rect img = Rect img \<and> (line_limit r (Rect img) \<le> frameIdx \<longrightarrow> img = img)"
      by simp
  next
    fix x s
    assume x: "x < nat (run_width r)"
      and inv: "Rect s = Rect img \<and> (line_limit r (Rect img) \<le> frameIdx \<longrightarrow> s = img)"
    have "3 * (run_width r * run_height r) \<le> int (length frameBuf)"
      using len by (simp add: algebra_simps)
    then obtain c where c: "reduce_col (run_iter r frameIdx (int x)) (run_mode r) frameBuf (int x)
        (run_width r) (run_height r) = Inr c"
    proof -
      have "0 \<le> int x" "int x < run_width r"
        using x by simp_all
      with reduce_col_returns [OF h h2 this \<open>3 * (run_width r * run_height r) \<le> int (length frameBuf)\<close>,
          of "run_iter r frameIdx (int x)" "run_mode r"] that
      show ?thesis by blast
    qed
    have "Set s (int x) frameIdx c = s" if "line_limit r (Rect img) \<le> frameIdx"
      using that inv True by (simp add: Set_def In_def line_limit_def)
    with c inv show "\<exists>s'. (case reduce_col (run_iter r frameIdx (int x)) (run_mode r) frameBuf (int x)
                             (run_width r) (run_height r) of
                      Inl e \<Rightarrow> Inl e
                    | Inr c \<Rightarrow> Inr (Set s (int x) frameIdx c)) = Inr s' \<and>
          (Rect s' = Rect img \<and> (line_limit r (Rect img) \<le> frameIdx \<longrightarrow> s' = img))"
      by (auto simp: Rect_Set)
  qed
  with True show ?thesis
    by (simp add: process_frame_def)
next
  case False
  have w2: "run_width r < 2 ^ 63"
    using sides_below_product [OF w h, of "run_width r * run_height r * 3"] sz by simp
  have "\<exists>img'. for_loop [0..<nat (run_height r)]
          (\<lambda>y img. case frame_row frameBuf y (run_width r) of
                      Inl e \<Rightarrow> Inl e
                    | Inr row \<Rightarrow>
                        (case reduce_row (run_iter r frameIdx y) (run_mode r) row (run_width r) of
                           Inl e \<Rightarrow> Inl e
                         | Inr c \<Rightarrow> Inr (Set img frameIdx y c))) img = Inr img' \<and>
        (Rect img' = Rect img \<and> (line_limit r (Rect img) \<le> frameIdx \<longrightarrow> img' = img))"
  proof (rule for_loop_invariant
      [where P = "\<lambda>_ img'. Rect img' = Rect img \<and> (line_limit r (Rect img) \<le> frameIdx \<longrightarrow> img' = img)"])
    show "Rect img = Rect img \<and> (line_limit r (Rect img) \<le> frameIdx \<longrightarrow> img = img)"
      by simp
  next
    fix y s
    assume y: "y < nat (run_height r)"
      and inv: "Rect s = Rect img \<and> (line_limit r (Rect img) \<le> frameIdx \<longrightarrow> s = img)"
    obtain row where row: "frame_row frameBuf (int y) (run_width r) = Inr row"
        "int (length row) = 3 * run_width r"
    proof -
      have "0 \<le> int y" "int y < run_height r" "0 \<le> run_width r"
        using y w by simp_all
      from frame_row_in_range [OF this len sz] that show ?thesis by blast
    qed
    obtain c where c: "reduce_row (run_iter r frameIdx (int y)) (run_mode r) row (run_width r) = Inr c"
      using reduce_row_returns [of "run_width r" row "run_iter r frameIdx (int y)" "run_mode r"]
        w w2 row(2) by auto
    have "Set s frameIdx (int y) c = s" if "line_limit r (Rect img) \<le> frameIdx"
      using that inv False by (simp add: Set_def In_def line_limit_def)
    with row(1) c inv show "\<exists>s'. (case frame_row frameBuf (int y) (run_width r) of
                      Inl e \<Rightarrow> Inl e
                    | Inr row \<Rightarrow>
                        (case reduce_row (run_iter r frameIdx (int y)) (run_mode r) row (run_width r) of
                           Inl e \<Rightarrow> Inl e
                         | Inr c \<Rightarrow> Inr (Set s frameIdx (int y) c))) = Inr s' \<and>
          (Rect s' = Rect img \<and> (line_limit r (Rect img) \<le> frameIdx \<longrightarrow> s' = img))"
      by (auto simp: Rect_Set)
  qed
  with False show ?thesis
    by (simp add: process_frame_def)
qed

subsection \<open>The loop on complete frames\<close>

lemma process_frames_append:
  "process_frames r (fs @ gs) img idx =
     (case process_frames r fs img idx of
        Inl e \<Rightarrow> Inl e
      | Inr (img', idx') \<Rightarrow> process_frames r gs img' idx')"
  by (induction fs arbitrary: img idx) (auto split: sum.splits)

lemma process_frames_full_frames:
  assumes w: "1 \<le> run_width r" and h: "1 \<le> run_height r"
    and sz: "run_width r * run_height r * 3 < 2 ^ 63"
    and len: "\<forall>f \<in> set fs. int (length f) = run_width r * run_height r * 3"
    and idx: "0 \<le> idx" "idx + int (length fs) < 2 ^ 63"
  shows "\<exists>img'. process_frames r fs img idx = Inr (img', idx + int (length fs)) \<and>
           Rect img' = Rect img \<and> (line_limit r (Rect img) \<le> idx \<longrightarrow> img' = img)"
  using len idx
proof (induction fs arbitrary: img idx)
  case Nil
  then show ?case by simp
next
  case (Cons f fs)
  have next_idx: "int64 (idx + 1) = idx + 1"
    by (rule int64_id) (use Cons.prems in simp_all)
  obtain img1 where 1: "process_frame r f img idx = Inr img1" "Rect img1 = Rect img"
      "line_limit r (Rect img) \<le> idx \<longrightarrow> img1 = img"
    using process_frame_full_frame [OF w h sz, of f img idx] Cons.prems by auto
  obtain img2 where 2: "process_frames r fs img1 (idx + 1) = Inr (img2, idx + 1 + int (length fs))"
      "Rect img2 = Rect img1" "line_limit r (Rect img1) \<le> idx + 1 \<longrightarrow> img2 = img1"
    using Cons.IH [of "idx + 1" img1] Cons.prems by auto
  from 1 2 show ?case
    by (auto simp: add.assoc next_idx)
qed

lemma stream_frames_full_frames:
  assumes "\<forall>f \<in> set fs. length f = n"
  shows "stream_frames r n \<lparr>pending = concat fs @ rest, ending = e\<rparr> img idx =
     (case process_frames r fs img idx of
        Inl p \<Rightarrow> Some (Inl (Panicked p))
      | Inr (img', idx') \<Rightarrow> stream_frames r n \<lparr>pending = rest, ending = e\<rparr> img' idx')"
  using assms
proof (induction fs arbitrary: img idx)
  case Nil
  then show ?case by simp
next
  case (Cons f fs)
  then have f: "length f = n" and fs: "\<forall>f \<in> set fs. length f = n"
    by simp_all
  have rd: "ReadFull \<lparr>pending = f @ concat fs @ rest, ending = e\<rparr> n =
            Filled f \<lparr>pending = concat fs @ rest, ending = e\<rparr>"
    using f by (simp add: ReadFull_def)
  show ?case
    by (subst stream_frames.simps) (simp add: rd Cons.IH [OF fs] split: sum.splits)
qed

lemma stream_frames_end:
  assumes "length rest < n"
  shows "stream_frames r n \<lparr>pending = rest, ending = e\<rparr> img idx =
     (if e = ReadError then Some (Inl FailedToReadFrame) else Some (Inr (img, idx)))"
  using assms
  by (subst stream_frames.simps) (cases e; simp add: ReadFull_def)

subsection \<open>Allocation\<close>

lemma image_Rect_origin:
  "0 \<le> a \<Longrightarrow> 0 \<le> b \<Longrightarrow> image_Rect 0 0 a b = \<lparr>rMin = \<lparr>X = 0, Y = 0\<rparr>, rMax = \<lparr>X = a, Y = b\<rparr>\<rparr>"
  by (simp add: image_Rect_def)

lemma NewRGBA_Inr:
  "NewRGBA r = Inr img \<Longrightarrow> img = \<lparr>Rect = r, Pixels = (\<lambda>p. zero_rgba)\<rparr>"
  by (auto simp: NewRGBA_def Let_def split: if_splits)

lemma NewRGBA_origin:
  assumes "1 \<le> a" and "1 \<le> b" and "4 * a * b \<le> maxAlloc"
  shows "NewRGBA (image_Rect 0 0 a b) =
     Inr \<lparr>Rect = image_Rect 0 0 a b, Pixels = (\<lambda>p. zero_rgba)\<rparr>"
proof -
  have ab: "a * 1 \<le> a * b" "1 * b \<le> a * b"
    using assms(1,2) by (simp_all add: mult_left_mono mult_right_mono)
  have nn: "0 \<le> a * b"
    using assms(1,2) by simp
  have m: "4 * (a * b) \<le> 2 ^ 48"
    using assms(3) by (simp add: maxAlloc_def)
  have a: "a < 2 ^ 62" and b: "b < 2 ^ 63"
    using ab m by simp_all
  have dx: "Dx (image_Rect 0 0 a b) = a"
    using assms(1,2) a by (simp add: Dx_def image_Rect_origin int64_id)
  have dy: "Dy (image_Rect 0 0 a b) = b"
    using assms(1,2) b by (simp add: Dy_def image_Rect_origin int64_id)
  have "mul3NonNeg 4 a b = 4 * (a * b)"
    using assms(1,2) a m by (simp add: mul3NonNeg_def)
  then show ?thesis
    using nn m by (simp add: NewRGBA_def dx dy Let_def maxAlloc_def)
qed

lemma NewRGBA_canvas:
  assumes "1 \<le> W" and "1 \<le> H" and "1 \<le> maxFrames fc"
    and "4 * (if v then W else H) * maxFrames fc \<le> maxAlloc"
  shows "NewRGBA (canvas_rect v W H fc) =
     Inr \<lparr>Rect = canvas_rect v W H fc, Pixels = (\<lambda>p. zero_rgba)\<rparr>"
proof (cases v)
  case True
  with assms(4) have "4 * W * maxFrames fc \<le> maxAlloc"
    by simp
  from NewRGBA_origin [OF assms(1,3) this] True show ?thesis
    by (simp add: canvas_rect_def)
next
  case False
  with assms(4) have "4 * maxFrames fc * H \<le> maxAlloc"
    by (simp add: mult.commute mult.left_commute)
  from NewRGBA_origin [OF assms(3,2) this] False show ?thesis
    by (simp add: canvas_rect_def)
qed

subsection \<open>From the frame loop to the result\<close>

lemma Generate_frames:
  assumes "1 \<le> W" and "1 \<le> H" and "W * H * 3 \<le> maxAlloc" and "fc \<noteq> 0"
    and "NewRGBA (canvas_rect v W H fc) = Inr canvas"
    and "\<forall>f \<in> set fs. int (length f) = W * H * 3"
    and "int (length rest) < W * H * 3"
  shows "Generate order (Some \<lparr>Width = W, Height = H, FrameCount = fc\<rparr>)
           \<lparr>pending = concat fs @ rest, ending = e\<rparr> d m v =
     (case process_frames
             \<lparr>run_iter = order, run_mode = m, run_vertical = v, run_width = W, run_height = H\<rparr>
             fs canvas 0 of
        Inl p \<Rightarrow> Some (Inl (Panicked p))
      | Inr (img, idx) \<Rightarrow>
          if e = ReadError then Some (Inl FailedToReadFrame)
          else if d then Some (Inl Timeout)
          else Some (Inr (SubImage img (crop_rect v W H idx))))"
proof -
  let ?r = "\<lparr>run_iter = order, run_mode = m, run_vertical = v, run_width = W, run_height = H\<rparr>"
  have pos: "0 < W * H * 3"
    using assms(1,2) by simp
  have below: "W * H * 3 \<le> 2 ^ 48"
    using assms(3) by (simp add: maxAlloc_def)
  have size: "int64 (W * H * 3) = W * H * 3"
  proof -
    define p where "p = W * H * 3"
    have "0 < p" "p \<le> 2 ^ 48"
      using pos below by (simp_all only: p_def)
    then have "int64 p = p"
      by (intro int64_id) simp_all
    then show ?thesis
      by (simp only: p_def)
  qed
  have len: "\<forall>f \<in> set fs. length f = nat (W * H * 3)"
    using assms(6) by auto
  have rest: "length rest < nat (W * H * 3)"
    using assms(7) by linarith
  have loop: "stream_frames ?r (nat (W * H * 3)) \<lparr>pending = concat fs @ rest, ending = e\<rparr> img 0 =
     (case process_frames ?r fs img 0 of
        Inl p \<Rightarrow> Some (Inl (Panicked p))
      | Inr (img', idx') \<Rightarrow>
          if e = ReadError then Some (Inl FailedToReadFrame) else Some (Inr (img', idx')))" for img
    by (simp add: stream_frames_full_frames [OF len] stream_frames_end [OF rest] split: sum.splits)
  have guard: "\<not> (fc = 0 \<or> H = 0)"
    using assms(2,4) by simp
  have guard2: "(H * W < 0) = False" "(W * H * 3 < 0) = False" "(maxAlloc < W * H * 3) = False"
    using assms(1,2,3) by (simp_all add: mult_less_0_iff)
  have canvas: "(if v then NewRGBA (image_Rect 0 0 W (maxFrames fc))
                 else NewRGBA (image_Rect 0 0 (maxFrames fc) H)) = Inr canvas"
    using assms(5) by (simp add: canvas_rect_def split: if_splits)
  show ?thesis
    unfolding Generate_def crop_rect_def
    by (simp add: guard guard2 size canvas loop Let_def split: sum.splits)
qed

subsection \<open>Cropping\<close>

lemma Intersect_origin:
  assumes "1 \<le> a" and "1 \<le> b" and "1 \<le> c" and "1 \<le> d"
  shows "Intersect \<lparr>rMin = \<lparr>X = 0, Y = 0\<rparr>, rMax = \<lparr>X = a, Y = b\<rparr>\<rparr>
           \<lparr>rMin = \<lparr>X = 0, Y = 0\<rparr>, rMax = \<lparr>X = c, Y = d\<rparr>\<rparr> =
         \<lparr>rMin = \<lparr>X = 0, Y = 0\<rparr>, rMax = \<lparr>X = min a c, Y = min b d\<rparr>\<rparr>"
  using assms by (auto simp: Intersect_def Let_def Empty_def min_def)

lemma Rect_SubImage_origin:
  assumes "Rect img = \<lparr>rMin = \<lparr>X = 0, Y = 0\<rparr>, rMax = \<lparr>X = c, Y = d\<rparr>\<rparr>"
    and "1 \<le> a" and "1 \<le> b" and "1 \<le> c" and "1 \<le> d"
  shows "SubImage img \<lparr>rMin = \<lparr>X = 0, Y = 0\<rparr>, rMax = \<lparr>X = a, Y = b\<rparr>\<rparr> =
         img\<lparr>Rect := \<lparr>rMin = \<lparr>X = 0, Y = 0\<rparr>, rMax = \<lparr>X = min a c, Y = min b d\<rparr>\<rparr>\<rparr>"
proof -
  have "\<not> Empty \<lparr>rMin = \<lparr>X = 0, Y = 0\<rparr>, rMax = \<lparr>X = min a c, Y = min b d\<rparr>\<rparr>"
    using assms(2-) by (auto simp: Empty_def)
  then show ?thesis
    by (simp add: SubImage_def assms(1) Intersect_origin [OF assms(2-)])
qed

lemma SubImage_crop_full:
  assumes "Rect img = canvas_rect v W H fc" and "1 \<le> W" and "1 \<le> H"
    and "1 \<le> maxFrames fc" and "maxFrames fc \<le> n"
  shows "SubImage img (crop_rect v W H n) = SubImage img (crop_rect v W H (maxFrames fc)) \<and>
         Rect (SubImage img (crop_rect v W H n)) = canvas_rect v W H fc"
proof (cases v)
  case True
  have r: "Rect img = \<lparr>rMin = \<lparr>X = 0, Y = 0\<rparr>, rMax = \<lparr>X = W, Y = maxFrames fc\<rparr>\<rparr>"
    using assms True by (simp add: canvas_rect_def image_Rect_origin)
  have n: "1 \<le> n" using assms(4,5) by simp
  show ?thesis
    using True assms(2-) n
    by (simp add: crop_rect_def canvas_rect_def image_Rect_origin
        Rect_SubImage_origin [OF r])
next
  case False
  have r: "Rect img = \<lparr>rMin = \<lparr>X = 0, Y = 0\<rparr>, rMax = \<lparr>X = maxFrames fc, Y = H\<rparr>\<rparr>"
    using assms False by (simp add: canvas_rect_def image_Rect_origin)
  have n: "1 \<le> n" using assms(4,5) by simp
  show ?thesis
    using False assms(2-) n
    by (simp add: crop_rect_def canvas_rect_def image_Rect_origin
        Rect_SubImage_origin [OF r])
qed

lemma SubImage_crop_rect:
  assumes "Rect img = canvas_rect v W H fc" and "1 \<le> W" and "1 \<le> H"
    and "1 \<le> n" and "n \<le> maxFrames fc"
  shows "Rect (SubImage img (crop_rect v W H n)) = crop_rect v W H n"
proof (cases v)
  case True
  have r: "Rect img = \<lparr>rMin = \<lparr>X = 0, Y = 0\<rparr>, rMax = \<lparr>X = W, Y = maxFrames fc\<rparr>\<rparr>"
    using assms True by (simp add: canvas_rect_def image_Rect_origin)
  have c: "1 \<le> maxFrames fc" using assms(4,5) by simp
  show ?thesis
    using True assms(2-) c
    by (simp add: crop_rect_def canvas_rect_def image_Rect_origin
        Rect_SubImage_origin [OF r])
next
  case False
  have r: "Rect img = \<lparr>rMin = \<lparr>X = 0, Y = 0\<rparr>, rMax = \<lparr>X = maxFrames fc, Y = H\<rparr>\<rparr>"
    using assms False by (simp add: canvas_rect_def image_Rect_origin)
  have c: "1 \<le> maxFrames fc" using assms(4,5) by simp
  show ?thesis
    using False assms(2-) c
    by (simp add: crop_rect_def canvas_rect_def image_Rect_origin
        Rect_SubImage_origin [OF r])
qed

lemma SubImage_crop_nothing:
  "Rect (SubImage img (crop_rect v W H 0)) = ZR"
proof -
  have "Empty (image_Rect 0 0 W 0)" "Empty (image_Rect 0 0 0 H)"
    by (simp_all add: Empty_def image_Rect_def)
  then have "Empty (crop_rect v W H 0)"
    by (simp add: crop_rect_def)
  then have "Intersect (crop_rect v W H 0) (Rect img) = ZR"
    by (auto simp: Intersect_def Empty_def Let_def)
  then show ?thesis
    by (simp add: SubImage_def Empty_def ZR_def)
qed

lemma size_crop_rect:
  assumes "0 \<le> W" and "W < 2 ^ 63" and "0 \<le> H" and "H < 2 ^ 63" and "0 \<le> n" and "n < 2 ^ 63"
  shows "Dx (crop_rect v W H n) = (if v then W else n) \<and>
         Dy (crop_rect v W H n) = (if v then n else H)"
  using assms by (simp add: crop_rect_def image_Rect_def Dx_def Dy_def int64_id)

lemma size_ZR: "Dx ZR = 0 \<and> Dy ZR = 0"
  by (simp add: ZR_def Dx_def Dy_def int64_def)

subsection \<open>Runs on complete frames\<close>

lemma line_limit_canvas:
  "1 \<le> W \<Longrightarrow> 1 \<le> H \<Longrightarrow> 0 \<le> maxFrames fc \<Longrightarrow>
   line_limit \<lparr>run_iter = order, run_mode = m, run_vertical = v, run_width = W, run_height = H\<rparr>
     (canvas_rect v W H fc) = maxFrames fc"
  by (simp add: line_limit_def canvas_rect_def image_Rect_def)

lemma Generate_full_frames:
  assumes w: "1 \<le> W" and h: "1 \<le> H" and sz: "W * H * 3 \<le> maxAlloc" and fc: "fc \<noteq> 0"
    and canvas: "NewRGBA (canvas_rect v W H fc) = Inr canvas"
    and len: "\<forall>f \<in> set fs. int (length f) = W * H * 3"
    and n: "int (length fs) < 2 ^ 63"
    and rest: "int (length rest) < W * H * 3"
  shows "\<exists>img. process_frames
                 \<lparr>run_iter = order, run_mode = m, run_vertical = v, run_width = W, run_height = H\<rparr>
                 fs canvas 0 = Inr (img, int (length fs)) \<and>
               Rect img = canvas_rect v W H fc \<and>
               Generate order (Some \<lparr>Width = W, Height = H, FrameCount = fc\<rparr>)
                 \<lparr>pending = concat fs @ rest, ending = e\<rparr> d m v =
                 (if e = ReadError then Some (Inl FailedToReadFrame)
                  else if d then Some (Inl Timeout)
                  else Some (Inr (SubImage img (crop_rect v W H (int (length fs))))))"
proof -
  let ?r = "\<lparr>run_iter = order, run_mode = m, run_vertical = v, run_width = W, run_height = H\<rparr>"
  have sz63: "W * H * 3 < 2 ^ 63"
    using sz by (simp add: maxAlloc_def)
  obtain img where img: "process_frames ?r fs canvas 0 = Inr (img, 0 + int (length fs))"
      "Rect img = Rect canvas"
    using process_frames_full_frames [of ?r fs 0 canvas] w h sz63 len n
    by auto
  have "Rect canvas = canvas_rect v W H fc"
    using NewRGBA_Inr [OF canvas] by simp
  with img show ?thesis
    using Generate_frames [OF w h sz fc canvas len rest, of order e d m]
    by simp
qed

lemma Generate_size:
  assumes w: "1 \<le> W" and h: "1 \<le> H" and sz: "W * H * 3 \<le> maxAlloc" and fc: "fc \<noteq> 0"
    and cap: "1 \<le> maxFrames fc"
    and alloc: "4 * (if v then W else H) * maxFrames fc \<le> maxAlloc"
    and len: "\<forall>f \<in> set fs. int (length f) = W * H * 3"
    and n: "int (length fs) \<le> maxFrames fc"
  shows "result_size (Generate order (Some \<lparr>Width = W, Height = H, FrameCount = fc\<rparr>)
           \<lparr>pending = concat fs, ending = CleanEOF\<rparr> d m v) =
         (if d then None
          else if fs = [] then Some (0, 0)
          else if v then Some (W, int (length fs))
          else Some (int (length fs), H))"
proof -
  have rest: "int (length ([] :: byte list)) < W * H * 3"
    using w h by simp
  have n63: "int (length fs) < 2 ^ 63"
    using n maxFrames_range [of fc] by simp
  have sides: "W < 2 ^ 63" "H < 2 ^ 63"
    using sides_below_product [OF w h sz] by (simp_all add: maxAlloc_def)
  from Generate_full_frames [OF w h sz fc NewRGBA_canvas [OF w h cap alloc] len n63 rest,
      of order m CleanEOF d]
  obtain img where img: "Rect img = canvas_rect v W H fc"
    and g: "Generate order (Some \<lparr>Width = W, Height = H, FrameCount = fc\<rparr>)
       \<lparr>pending = concat fs, ending = CleanEOF\<rparr> d m v =
     (if d then Some (Inl Timeout)
      else Some (Inr (SubImage img (crop_rect v W H (int (length fs))))))"
    by auto
  show ?thesis
  proof (cases d)
    case True
    show ?thesis
      unfolding g using True by (simp add: result_size_def)
  next
    case False
    show ?thesis
    proof (cases "fs = []")
      case True
      with \<open>\<not> d\<close> show ?thesis
        unfolding g by (simp add: result_size_def SubImage_crop_nothing size_ZR)
    next
      case nonempty: False
      then have n1: "1 \<le> int (length fs)"
        by (cases fs) simp_all
      have "Rect (SubImage img (crop_rect v W H (int (length fs)))) =
            crop_rect v W H (int (length fs))"
        by (rule SubImage_crop_rect [OF img w h n1 n])
      with \<open>\<not> d\<close> nonempty show ?thesis
        unfolding g
        using size_crop_rect [of W H "int (length fs)" v] w h sides n63
        by (simp add: result_size_def)
    qed
  qed
qed

lemma Generate_partial_frame:
  assumes w: "1 \<le> W" and h: "1 \<le> H" and sz: "W * H * 3 \<le> maxAlloc" and fc: "fc \<noteq> 0"
    and cap: "1 \<le> maxFrames fc"
    and alloc: "4 * (if v then W else H) * maxFrames fc \<le> maxAlloc"
    and len: "\<forall>f \<in> set fs. int (length f) = W * H * 3"
    and n: "int (length fs) < 2 ^ 63"
    and rest: "int (length rest) < W * H * 3"
  shows "Generate order (Some \<lparr>Width = W, Height = H, FrameCount = fc\<rparr>)
           \<lparr>pending = concat fs @ rest, ending = CleanEOF\<rparr> d m v =
         Generate order (Some \<lparr>Width = W, Height = H, FrameCount = fc\<rparr>)
           \<lparr>pending = concat fs, ending = CleanEOF\<rparr> d m v \<and>
         (\<exists>img. Generate order (Some \<lparr>Width = W, Height = H, FrameCount = fc\<rparr>)
           \<lparr>pending = concat fs @ rest, ending = CleanEOF\<rparr> d m v =
           (if d then Some (Inl Timeout) else Some (Inr img)))"
proof -
  have none: "int (length ([] :: byte list)) < W * H * 3"
    using w h by simp
  note canvas = NewRGBA_canvas [OF w h cap alloc]
  from Generate_full_frames [OF w h sz fc canvas len n rest, of order m CleanEOF d]
    Generate_full_frames [OF w h sz fc canvas len n none, of order m CleanEOF d]
  show ?thesis by auto
qed

lemma Generate_excess_frames:
  assumes w: "1 \<le> W" and h: "1 \<le> H" and sz: "W * H * 3 \<le> maxAlloc" and fc: "fc \<noteq> 0"
    and cap: "1 \<le> maxFrames fc"
    and alloc: "4 * (if v then W else H) * maxFrames fc \<le> maxAlloc"
    and len: "\<forall>f \<in> set fs. int (length f) = W * H * 3"
    and n: "maxFrames fc \<le> int (length fs)" and n63: "int (length fs) < 2 ^ 63"
  shows "Generate order (Some \<lparr>Width = W, Height = H, FrameCount = fc\<rparr>)
           \<lparr>pending = concat fs, ending = e\<rparr> d m v =
         Generate order (Some \<lparr>Width = W, Height = H, FrameCount = fc\<rparr>)
           \<lparr>pending = concat (take (nat (maxFrames fc)) fs), ending = e\<rparr> d m v \<and>
         (\<exists>img. Rect img = canvas_rect v W H fc \<and>
            Generate order (Some \<lparr>Width = W, Height = H, FrameCount = fc\<rparr>)
              \<lparr>pending = concat fs, ending = e\<rparr> d m v =
            (if e = ReadError then Some (Inl FailedToReadFrame)
             else if d then Some (Inl Timeout) else Some (Inr img)))"
proof -
  let ?r = "\<lparr>run_iter = order, run_mode = m, run_vertical = v, run_width = W, run_height = H\<rparr>"
  let ?c = "nat (maxFrames fc)"
  let ?fs1 = "take ?c fs" and ?fs2 = "drop ?c fs"
  let ?canvas = "\<lparr>Rect = canvas_rect v W H fc, Pixels = (\<lambda>p. zero_rgba)\<rparr>"
  note canvas = NewRGBA_canvas [OF w h cap alloc]
  have sz63: "W * H * 3 < 2 ^ 63"
    using sz by (simp add: maxAlloc_def)
  have none: "int (length ([] :: byte list)) < W * H * 3"
    using w h by simp
  have l1: "int (length ?fs1) = maxFrames fc"
    using n cap by simp
  have l163: "int (length ?fs1) < 2 ^ 63"
    using n63 by simp
  have len1: "\<forall>f \<in> set ?fs1. int (length f) = W * H * 3"
    using len by (meson in_set_takeD)
  have len2: "\<forall>f \<in> set ?fs2. int (length f) = W * H * 3"
    using len by (meson in_set_dropD)
  obtain img1 where 1: "process_frames ?r ?fs1 ?canvas 0 = Inr (img1, maxFrames fc)"
      "Rect img1 = canvas_rect v W H fc"
      "Generate order (Some \<lparr>Width = W, Height = H, FrameCount = fc\<rparr>)
         \<lparr>pending = concat ?fs1, ending = e\<rparr> d m v =
       (if e = ReadError then Some (Inl FailedToReadFrame)
        else if d then Some (Inl Timeout)
        else Some (Inr (SubImage img1 (crop_rect v W H (maxFrames fc)))))"
    using Generate_full_frames [OF w h sz fc canvas len1 l163 none, of order m e d] l1 by auto
  have lim: "line_limit ?r (Rect img1) \<le> maxFrames fc"
    using line_limit_canvas [of W H fc order m v] w h cap 1(2) by simp
  have total: "maxFrames fc + int (length ?fs2) = int (length fs)"
    using n cap by simp
  obtain img2 where 2: "process_frames ?r ?fs2 img1 (maxFrames fc) =
      Inr (img2, maxFrames fc + int (length ?fs2))" "img2 = img1"
    using process_frames_full_frames [of ?r ?fs2 "maxFrames fc" img1] w h sz63 len2 lim cap
      total n63
    by auto
  have "process_frames ?r (?fs1 @ ?fs2) ?canvas 0 = process_frames ?r ?fs2 img1 (maxFrames fc)"
    by (simp only: process_frames_append 1(1) sum.case prod.case)
  also have "\<dots> = Inr (img1, int (length fs))"
    using 2 total by (simp only:)
  finally have all: "process_frames ?r fs ?canvas 0 = Inr (img1, int (length fs))"
    by (simp only: append_take_drop_id)
  have g: "Generate order (Some \<lparr>Width = W, Height = H, FrameCount = fc\<rparr>)
         \<lparr>pending = concat fs, ending = e\<rparr> d m v =
       (if e = ReadError then Some (Inl FailedToReadFrame)
        else if d then Some (Inl Timeout)
        else Some (Inr (SubImage img1 (crop_rect v W H (int (length fs))))))"
    using Generate_frames [OF w h sz fc canvas len none, of order e d m] all by simp
  have eq: "SubImage img1 (crop_rect v W H (int (length fs))) =
            SubImage img1 (crop_rect v W H (maxFrames fc))"
    and b: "Rect (SubImage img1 (crop_rect v W H (int (length fs)))) = canvas_rect v W H fc"
    using SubImage_crop_full [OF 1(2) w h cap n] by blast+
  have first: "Generate order (Some \<lparr>Width = W, Height = H, FrameCount = fc\<rparr>)
           \<lparr>pending = concat fs, ending = e\<rparr> d m v =
         Generate order (Some \<lparr>Width = W, Height = H, FrameCount = fc\<rparr>)
           \<lparr>pending = concat ?fs1, ending = e\<rparr> d m v"
    by (simp only: g 1(3) eq)
  from b g have "\<exists>img. Rect img = canvas_rect v W H fc \<and>
            Generate order (Some \<lparr>Width = W, Height = H, FrameCount = fc\<rparr>)
              \<lparr>pending = concat fs, ending = e\<rparr> d m v =
            (if e = ReadError then Some (Inl FailedToReadFrame)
             else if d then Some (Inl Timeout) else Some (Inr img))"
    by blast
  with first show ?thesis
    by (rule conjI)
qed

section \<open>Streams longer than the canvas, partial frames, and the size of the result\<close>

lemma size_canvas_rect:
  assumes "0 \<le> W" and "W < 2 ^ 63" and "0 \<le> H" and "H < 2 ^ 63" and "0 \<le> maxFrames fc"
  shows "Dx (canvas_rect v W H fc) = (if v then W else maxFrames fc) \<and>
         Dy (canvas_rect v W H fc) = (if v then maxFrames fc else H)"
  using assms maxFrames_range [of fc]
  by (simp add: canvas_rect_def image_Rect_def Dx_def Dy_def int64_id)

text \<open>
  C1, as the code has it: a run whose stream holds more complete frames than the canvas has
  lines does not fail for that.  \<^verbatim>\<open>Set\<close> ignores the lines beyond the canvas and \<^verbatim>\<open>SubImage\<close>
  crops to the canvas, so the run ends as it does on the first \<open>maxFrames\<close> frames alone,
  whatever ends the stream and whether or not the deadline has passed: with the error of a
  failed read, with the timeout, or else with an image that has the bounds of the canvas,
  \<open>maxFrames\<close> lines.  The hypotheses say that the geometry and the capacity are positive,
  that the frame buffer and the canvas are within the allocation limit, that every frame is
  complete, and that the frames are counted without wrap-around.
\<close>

theorem excess_frames_dropped:
  "1 \<le> W \<and> 1 \<le> H \<and> W * H * 3 \<le> maxAlloc \<and> fc \<noteq> 0 \<and> 1 \<le> maxFrames fc \<and>
   4 * (if v then W else H) * maxFrames fc \<le> maxAlloc \<and>
   (\<forall>f \<in> set frames. int (length f) = W * H * 3) \<and>
   maxFrames fc < int (length frames) \<and> int (length frames) < 2 ^ 63 \<longrightarrow>
     Generate order (Some \<lparr>Width = W, Height = H, FrameCount = fc\<rparr>)
       \<lparr>pending = concat frames, ending = e\<rparr> d m v =
     Generate order (Some \<lparr>Width = W, Height = H, FrameCount = fc\<rparr>)
       \<lparr>pending = concat (take (nat (maxFrames fc)) frames), ending = e\<rparr> d m v \<and>
     (\<exists>img. Rect img = canvas_rect v W H fc \<and>
        Generate order (Some \<lparr>Width = W, Height = H, FrameCount = fc\<rparr>)
          \<lparr>pending = concat frames, ending = e\<rparr> d m v =
        (if e = ReadError then Some (Inl FailedToReadFrame)
         else if d then Some (Inl Timeout) else Some (Inr img)))"
proof (intro impI, elim conjE)
  assume a: "1 \<le> W" "1 \<le> H" "W * H * 3 \<le> maxAlloc" "fc \<noteq> 0" "1 \<le> maxFrames fc"
    "4 * (if v then W else H) * maxFrames fc \<le> maxAlloc"
    "\<forall>f \<in> set frames. int (length f) = W * H * 3"
    and more: "maxFrames fc < int (length frames)" and n63: "int (length frames) < 2 ^ 63"
  from more have n: "maxFrames fc \<le> int (length frames)"
    by simp
  show "Generate order (Some \<lparr>Width = W, Height = H, FrameCount = fc\<rparr>)
       \<lparr>pending = concat frames, ending = e\<rparr> d m v =
     Generate order (Some \<lparr>Width = W, Height = H, FrameCount = fc\<rparr>)
       \<lparr>pending = concat (take (nat (maxFrames fc)) frames), ending = e\<rparr> d m v \<and>
     (\<exists>img. Rect img = canvas_rect v W H fc \<and>
        Generate order (Some \<lparr>Width = W, Height = H, FrameCount = fc\<rparr>)
          \<lparr>pending = concat frames, ending = e\<rparr> d m v =
        (if e = ReadError then Some (Inl FailedToReadFrame)
         else if d then Some (Inl Timeout) else Some (Inr img)))"
    by (rule Generate_excess_frames [OF a n n63])
qed

theorem excess_frames_dropped_witness:
  "1 \<le> (1 :: int) \<and> (1 * 1 * 3 :: int) \<le> maxAlloc \<and> (10 :: int) \<noteq> 0 \<and> 1 \<le> maxFrames 10 \<and>
   4 * 1 * maxFrames 10 \<le> maxAlloc \<and>
   maxFrames 10 < int (length (replicate 25 [0, 0, 0 :: byte])) \<and>
   int (length (replicate 25 [0, 0, 0 :: byte])) < 2 ^ 63 \<and>
   Generate insertion_order (Some \<lparr>Width = 1, Height = 1, FrameCount = 10\<rparr>)
     \<lparr>pending = concat (replicate 25 [0, 0, 0]), ending = CleanEOF\<rparr> False ''max'' True =
   Generate insertion_order (Some \<lparr>Width = 1, Height = 1, FrameCount = 10\<rparr>)
     \<lparr>pending = concat (take (nat (maxFrames 10)) (replicate 25 [0, 0, 0])), ending = CleanEOF\<rparr>
     False ''max'' True \<and>
   (\<exists>img. Rect img = canvas_rect True 1 1 10 \<and>
      Generate insertion_order (Some \<lparr>Width = 1, Height = 1, FrameCount = 10\<rparr>)
        \<lparr>pending = concat (replicate 25 [0, 0, 0]), ending = CleanEOF\<rparr> False ''max'' True =
      Some (Inr img))"
proof -
  have hyp: "1 \<le> (1 :: int) \<and> 1 \<le> (1 :: int) \<and> (1 * 1 * 3 :: int) \<le> maxAlloc \<and> (10 :: int) \<noteq> 0 \<and>
      1 \<le> maxFrames 10 \<and> 4 * (if True then 1 else 1) * maxFrames 10 \<le> maxAlloc \<and>
      (\<forall>f \<in> set (replicate 25 [0, 0, 0 :: byte]). int (length f) = 1 * 1 * 3) \<and>
      maxFrames 10 < int (length (replicate 25 [0, 0, 0 :: byte])) \<and>
      int (length (replicate 25 [0, 0, 0 :: byte])) < 2 ^ 63"
    by (simp add: maxFrames_nonneg maxAlloc_def)
  have flags: "(CleanEOF = ReadError) = False"
    by simp
  have bounds: "1 \<le> (1 :: int) \<and> (1 * 1 * 3 :: int) \<le> maxAlloc \<and> (10 :: int) \<noteq> 0 \<and>
      1 \<le> maxFrames 10 \<and> 4 * 1 * maxFrames 10 \<le> maxAlloc \<and>
      maxFrames 10 < int (length (replicate 25 [0, 0, 0 :: byte])) \<and>
      int (length (replicate 25 [0, 0, 0 :: byte])) < 2 ^ 63"
    by (simp add: maxFrames_nonneg maxAlloc_def)
  from excess_frames_dropped [of 1 1 10 True "replicate 25 [0, 0, 0]" insertion_order CleanEOF
      False "''max''"] hyp
  have "Generate insertion_order (Some \<lparr>Width = 1, Height = 1, FrameCount = 10\<rparr>)
       \<lparr>pending = concat (replicate 25 [0, 0, 0]), ending = CleanEOF\<rparr> False ''max'' True =
     Generate insertion_order (Some \<lparr>Width = 1, Height = 1, FrameCount = 10\<rparr>)
       \<lparr>pending = concat (take (nat (maxFrames 10)) (replicate 25 [0, 0, 0])), ending = CleanEOF\<rparr>
       False ''max'' True \<and>
     (\<exists>img. Rect img = canvas_rect True 1 1 10 \<and>
        Generate insertion_order (Some \<lparr>Width = 1, Height = 1, FrameCount = 10\<rparr>)
          \<lparr>pending = concat (replicate 25 [0, 0, 0]), ending = CleanEOF\<rparr> False ''max'' True =
        Some (Inr img))"
    unfolding flags if_False by (rule mp)
  with bounds show ?thesis
    by blast
qed

text \<open>
  C1 as stated fails on the scenario of the specification: with an estimate of 10 frames
  the capacity is 21 lines, and a stream of 25 frames of one pixel ends in an image of 21
  by 1 pixels, not in an error.
\<close>

theorem excess_frames_counterexample:
  "result_size (Generate insertion_order (Some \<lparr>Width = 1, Height = 1, FrameCount = 10\<rparr>)
     \<lparr>pending = concat (replicate 25 [0, 0, 0]), ending = CleanEOF\<rparr> False ''average'' False) =
   Some (21, 1)"
proof -
  have "\<exists>img. Rect img = canvas_rect False 1 1 10 \<and>
     Generate insertion_order (Some \<lparr>Width = 1, Height = 1, FrameCount = 10\<rparr>)
       \<lparr>pending = concat (replicate 25 [0, 0, 0]), ending = CleanEOF\<rparr> False ''average'' False =
     (if CleanEOF = ReadError then Some (Inl FailedToReadFrame)
      else if False then Some (Inl Timeout) else Some (Inr img))"
    by (rule conjunct2 [OF Generate_excess_frames]) (simp_all add: maxFrames_nonneg maxAlloc_def)
  then obtain img where "Rect img = canvas_rect False 1 1 10"
    "Generate insertion_order (Some \<lparr>Width = 1, Height = 1, FrameCount = 10\<rparr>)
       \<lparr>pending = concat (replicate 25 [0, 0, 0]), ending = CleanEOF\<rparr> False ''average'' False =
     Some (Inr img)"
    by auto
  then show ?thesis
    using size_canvas_rect [of 1 1 10 False]
    by (simp add: result_size_def maxFrames_nonneg)
qed

text \<open>
  C2, as the code has it: the frame loop leaves at \<^verbatim>\<open>io.ErrUnexpectedEOF\<close> as it does at
  \<^verbatim>\<open>io.EOF\<close>.  A stream of complete frames that ends after a partial frame ends the run as
  the stream of the complete frames alone does: the partial bytes are read into the buffer
  and never reduced, so they change no line of the image.  The run returns an image, or the
  timeout when the deadline has passed.  The hypotheses say that the geometry and the
  capacity are positive, that the frame buffer and the canvas are within the allocation
  limit, and that the frames are counted without wrap-around.
\<close>

theorem partial_frame_discarded:
  "1 \<le> W \<and> 1 \<le> H \<and> W * H * 3 \<le> maxAlloc \<and> fc \<noteq> 0 \<and> 1 \<le> maxFrames fc \<and>
   4 * (if v then W else H) * maxFrames fc \<le> maxAlloc \<and>
   (\<forall>f \<in> set frames. int (length f) = W * H * 3) \<and> int (length frames) < 2 ^ 63 \<and>
   0 < length partial \<and> int (length partial) < W * H * 3 \<longrightarrow>
     Generate order (Some \<lparr>Width = W, Height = H, FrameCount = fc\<rparr>)
       \<lparr>pending = concat frames @ partial, ending = CleanEOF\<rparr> d m v =
     Generate order (Some \<lparr>Width = W, Height = H, FrameCount = fc\<rparr>)
       \<lparr>pending = concat frames, ending = CleanEOF\<rparr> d m v \<and>
     (\<exists>img. Generate order (Some \<lparr>Width = W, Height = H, FrameCount = fc\<rparr>)
       \<lparr>pending = concat frames @ partial, ending = CleanEOF\<rparr> d m v =
       (if d then Some (Inl Timeout) else Some (Inr img)))"
  using Generate_partial_frame [of W H fc v frames partial order d m]
  by blast

theorem partial_frame_discarded_witness:
  "1 \<le> (1 :: int) \<and> (1 * 1 * 3 :: int) \<le> maxAlloc \<and> (10 :: int) \<noteq> 0 \<and> 1 \<le> maxFrames 10 \<and>
   4 * 1 * maxFrames 10 \<le> maxAlloc \<and>
   int (length [[1, 2, 3], [4, 5, 6 :: byte]]) < 2 ^ 63 \<and>
   0 < length [9 :: byte] \<and> int (length [9 :: byte]) < 1 * 1 * 3 \<and>
   Generate insertion_order (Some \<lparr>Width = 1, Height = 1, FrameCount = 10\<rparr>)
     \<lparr>pending = concat [[1, 2, 3], [4, 5, 6]] @ [9], ending = CleanEOF\<rparr> False ''min'' False =
   Generate insertion_order (Some \<lparr>Width = 1, Height = 1, FrameCount = 10\<rparr>)
     \<lparr>pending = concat [[1, 2, 3], [4, 5, 6]], ending = CleanEOF\<rparr> False ''min'' False \<and>
   (\<exists>img. Generate insertion_order (Some \<lparr>Width = 1, Height = 1, FrameCount = 10\<rparr>)
     \<lparr>pending = concat [[1, 2, 3], [4, 5, 6]] @ [9], ending = CleanEOF\<rparr> False ''min'' False =
     Some (Inr img))"
proof -
  have hyp: "1 \<le> (1 :: int) \<and> 1 \<le> (1 :: int) \<and> (1 * 1 * 3 :: int) \<le> maxAlloc \<and> (10 :: int) \<noteq> 0 \<and>
      1 \<le> maxFrames 10 \<and> 4 * (if False then 1 else 1) * maxFrames 10 \<le> maxAlloc \<and>
      (\<forall>f \<in> set [[1, 2, 3], [4, 5, 6 :: byte]]. int (length f) = 1 * 1 * 3) \<and>
      int (length [[1, 2, 3], [4, 5, 6 :: byte]]) < 2 ^ 63 \<and>
      0 < length [9 :: byte] \<and> int (length [9 :: byte]) < 1 * 1 * 3"
    by (simp add: maxFrames_nonneg maxAlloc_def)
  have bounds: "1 \<le> (1 :: int) \<and> (1 * 1 * 3 :: int) \<le> maxAlloc \<and> (10 :: int) \<noteq> 0 \<and>
      1 \<le> maxFrames 10 \<and> 4 * 1 * maxFrames 10 \<le> maxAlloc \<and>
      int (length [[1, 2, 3], [4, 5, 6 :: byte]]) < 2 ^ 63 \<and>
      0 < length [9 :: byte] \<and> int (length [9 :: byte]) < 1 * 1 * 3"
    by (simp add: maxFrames_nonneg maxAlloc_def)
  from partial_frame_discarded [of 1 1 10 False "[[1, 2, 3], [4, 5, 6]]" "[9]" insertion_order
      False "''min''"] hyp
  have "Generate insertion_order (Some \<lparr>Width = 1, Height = 1, FrameCount = 10\<rparr>)
       \<lparr>pending = concat [[1, 2, 3], [4, 5, 6]] @ [9], ending = CleanEOF\<rparr> False ''min'' False =
     Generate insertion_order (Some \<lparr>Width = 1, Height = 1, FrameCount = 10\<rparr>)
       \<lparr>pending = concat [[1, 2, 3], [4, 5, 6]], ending = CleanEOF\<rparr> False ''min'' False \<and>
     (\<exists>img. Generate insertion_order (Some \<lparr>Width = 1, Height = 1, FrameCount = 10\<rparr>)
       \<lparr>pending = concat [[1, 2, 3], [4, 5, 6]] @ [9], ending = CleanEOF\<rparr> False ''min'' False =
       Some (Inr img))"
    unfolding if_False by (rule mp)
  with bounds show ?thesis
    by blast
qed

text \<open>
  C2 as stated fails: two complete frames of one pixel followed by one byte of a third end in
  an image of 2 by 1 pixels, not in an error.
\<close>

theorem partial_frame_counterexample:
  "result_size (Generate insertion_order (Some \<lparr>Width = 1, Height = 1, FrameCount = 10\<rparr>)
     \<lparr>pending = concat [[1, 2, 3], [4, 5, 6]] @ [9], ending = CleanEOF\<rparr> False ''average'' False) =
   Some (2, 1)"
proof -
  have "Generate insertion_order (Some \<lparr>Width = 1, Height = 1, FrameCount = 10\<rparr>)
       \<lparr>pending = concat [[1, 2, 3], [4, 5, 6]] @ [9], ending = CleanEOF\<rparr> False ''average'' False =
     Generate insertion_order (Some \<lparr>Width = 1, Height = 1, FrameCount = 10\<rparr>)
       \<lparr>pending = concat [[1, 2, 3], [4, 5, 6]], ending = CleanEOF\<rparr> False ''average'' False"
    by (rule conjunct1 [OF Generate_partial_frame]) (simp_all add: maxFrames_nonneg maxAlloc_def)
  moreover have "result_size (Generate insertion_order
       (Some \<lparr>Width = 1, Height = 1, FrameCount = 10\<rparr>)
       \<lparr>pending = concat [[1, 2, 3], [4, 5, 6]], ending = CleanEOF\<rparr> False ''average'' False) =
     (if False then None
      else if [[1, 2, 3], [4, 5, 6 :: byte]] = [] then Some (0, 0)
      else if False then Some (1, int (length [[1, 2, 3], [4, 5, 6 :: byte]]))
      else Some (int (length [[1, 2, 3], [4, 5, 6 :: byte]]), 1))"
    by (rule Generate_size) (simp_all add: maxFrames_nonneg maxAlloc_def)
  ultimately show ?thesis
    by simp
qed

text \<open>
  C6, as the code has it: a stream of exactly \<open>N\<close> complete frames that ends cleanly, with
  \<open>N\<close> at least 1 and at most the capacity, ends in an image \<open>N\<close> wide and \<open>H\<close> tall in the
  horizontal orientation, and \<open>W\<close> wide and \<open>N\<close> tall in the vertical orientation.  A
  stream of no frame ends in the empty image, 0 by 0, in both orientations.  There is no
  image when the deadline has passed.  The hypotheses say that the geometry and the capacity
  are positive and that the frame buffer and the canvas are within the allocation limit.
\<close>

theorem cropped_image_size:
  "1 \<le> W \<and> 1 \<le> H \<and> W * H * 3 \<le> maxAlloc \<and> fc \<noteq> 0 \<and> 1 \<le> maxFrames fc \<and>
   4 * (if v then W else H) * maxFrames fc \<le> maxAlloc \<and>
   (\<forall>f \<in> set frames. int (length f) = W * H * 3) \<and> int (length frames) \<le> maxFrames fc \<longrightarrow>
     result_size (Generate order (Some \<lparr>Width = W, Height = H, FrameCount = fc\<rparr>)
       \<lparr>pending = concat frames, ending = CleanEOF\<rparr> d m v) =
     (if d then None
      else if frames = [] then Some (0, 0)
      else if v then Some (W, int (length frames))
      else Some (int (length frames), H))"
  using Generate_size [of W H fc v frames order d m]
  by blast

theorem cropped_image_size_witness:
  "1 \<le> (2 :: int) \<and> 1 \<le> (1 :: int) \<and> (2 * 1 * 3 :: int) \<le> maxAlloc \<and> (10 :: int) \<noteq> 0 \<and>
   1 \<le> maxFrames 10 \<and> 4 * 1 * maxFrames 10 \<le> maxAlloc \<and> 4 * 2 * maxFrames 10 \<le> maxAlloc \<and>
   int (length (replicate 3 [1, 2, 3, 4, 5, 6 :: byte])) \<le> maxFrames 10 \<and>
   result_size (Generate insertion_order (Some \<lparr>Width = 2, Height = 1, FrameCount = 10\<rparr>)
     \<lparr>pending = concat (replicate 3 [1, 2, 3, 4, 5, 6]), ending = CleanEOF\<rparr> False ''common'' False) =
     Some (3, 1) \<and>
   result_size (Generate insertion_order (Some \<lparr>Width = 2, Height = 1, FrameCount = 10\<rparr>)
     \<lparr>pending = concat (replicate 3 [1, 2, 3, 4, 5, 6]), ending = CleanEOF\<rparr> False ''common'' True) =
     Some (2, 3) \<and>
   result_size (Generate insertion_order (Some \<lparr>Width = 2, Height = 1, FrameCount = 10\<rparr>)
     \<lparr>pending = concat (replicate 3 [1, 2, 3, 4, 5, 6]), ending = CleanEOF\<rparr> True ''common'' True) =
     None"
proof -
  have hyp: "1 \<le> (2 :: int) \<and> 1 \<le> (1 :: int) \<and> (2 * 1 * 3 :: int) \<le> maxAlloc \<and> (10 :: int) \<noteq> 0 \<and>
      1 \<le> maxFrames 10 \<and> 4 * (if v then 2 else 1) * maxFrames 10 \<le> maxAlloc \<and>
      (\<forall>f \<in> set (replicate 3 [1, 2, 3, 4, 5, 6 :: byte]). int (length f) = 2 * 1 * 3) \<and>
      int (length (replicate 3 [1, 2, 3, 4, 5, 6 :: byte])) \<le> maxFrames 10" for v
    by (simp add: maxFrames_nonneg maxAlloc_def)
  have len: "int (length (replicate 3 [1, 2, 3, 4, 5, 6 :: byte])) = 3"
    by simp
  have ne: "(replicate 3 [1, 2, 3, 4, 5, 6 :: byte] = []) = False"
    by simp
  from cropped_image_size [of 2 1 10 False "replicate 3 [1, 2, 3, 4, 5, 6]" insertion_order
      False "''common''"]
    cropped_image_size [of 2 1 10 True "replicate 3 [1, 2, 3, 4, 5, 6]" insertion_order
      False "''common''"]
    cropped_image_size [of 2 1 10 True "replicate 3 [1, 2, 3, 4, 5, 6]" insertion_order
      True "''common''"]
    hyp [of False] hyp [of True]
  have "result_size (Generate insertion_order (Some \<lparr>Width = 2, Height = 1, FrameCount = 10\<rparr>)
     \<lparr>pending = concat (replicate 3 [1, 2, 3, 4, 5, 6]), ending = CleanEOF\<rparr> False ''common'' False) =
     Some (3, 1) \<and>
   result_size (Generate insertion_order (Some \<lparr>Width = 2, Height = 1, FrameCount = 10\<rparr>)
     \<lparr>pending = concat (replicate 3 [1, 2, 3, 4, 5, 6]), ending = CleanEOF\<rparr> False ''common'' True) =
     Some (2, 3) \<and>
   result_size (Generate insertion_order (Some \<lparr>Width = 2, Height = 1, FrameCount = 10\<rparr>)
     \<lparr>pending = concat (replicate 3 [1, 2, 3, 4, 5, 6]), ending = CleanEOF\<rparr> True ''common'' True) =
     None"
    unfolding len ne if_True if_False by blast
  with hyp [of False] hyp [of True] show ?thesis
    by simp
qed

text \<open>
  C6 as stated fails for the stream of no frame: at a geometry of 1 by 2 the claim asks for
  an image 0 wide and 2 tall, and \<^verbatim>\<open>SubImage\<close> returns the empty image, 0 by 0.
\<close>

theorem cropped_image_size_counterexample:
  "result_size (Generate insertion_order (Some \<lparr>Width = 1, Height = 2, FrameCount = 10\<rparr>)
     \<lparr>pending = [], ending = CleanEOF\<rparr> False ''average'' False) = Some (0, 0)"
  using Generate_size [of 1 2 10 False "[]" insertion_order False "''average''"]
  by (simp add: maxFrames_nonneg maxAlloc_def)

section \<open>Resampling at the size of the source\<close>



















end
